theory Spec2Isabelle
  imports Main
begin

section \<open>Values: errors, panic payloads, task functions\<close>

text \<open>
  A Go \<^verbatim>\<open>error\<close> built by \<^verbatim>\<open>fmt.Errorf(format, args...)\<close> is kept as the format
  string with its operands, unrendered. An operand of the verb \<^verbatim>\<open>%w\<close> is \<open>ArgError\<close>
  (the error that \<^verbatim>\<open>errors.Unwrap\<close> gives back), a string of \<^verbatim>\<open>%q\<close> is \<open>ArgString\<close>,
  a string slice of \<^verbatim>\<open>%q\<close> is \<open>ArgStrings\<close>, a function value of \<^verbatim>\<open>%#v\<close> is \<open>ArgFunc\<close>
  (its pointer) and any other Go value of \<^verbatim>\<open>%#v\<close> is \<open>ArgValue\<close> (its Go-syntax text).
  The error value \<^verbatim>\<open>nil\<close> is \<open>None\<close> of \<open>error option\<close>.
\<close>

datatype 'e arg =
    ArgString string
  | ArgStrings "string list"
  | ArgError 'e
  | ArgValue string
  | ArgFunc nat

datatype error = Errorf string "error arg list"

text \<open>\<^verbatim>\<open>errors.Unwrap\<close>: the operand of \<^verbatim>\<open>%w\<close>, when the error has one.\<close>

fun wrapped :: "error arg list \<Rightarrow> error option" where
  "wrapped [] = None"
| "wrapped (ArgError e # _) = Some e"
| "wrapped (_ # as) = wrapped as"

fun Unwrap :: "error \<Rightarrow> error option" where
  "Unwrap (Errorf _ as) = wrapped as"

text \<open>
  A value of \<^verbatim>\<open>interface{}\<close> as \<^verbatim>\<open>recover()\<close> returns it: \<^verbatim>\<open>nil\<close>, an error, or a
  value of another type (kept as its Go-syntax text).
\<close>

datatype val = VNil | VError error | VOther string

text \<open>
  What one call of a task function does: it returns an error (possibly \<^verbatim>\<open>nil\<close>), it
  panics with a payload, or it never returns (it waits forever). A task function is
  arbitrary Go code; the model knows it by this outcome alone, so what its body does to
  the group on the way (the tasks it requests) is not followed. The functions made by
  \<^verbatim>\<open>Opt\<close>, \<^verbatim>\<open>Ser\<close> and \<^verbatim>\<open>Par\<close> are modelled in full, below.
\<close>

datatype outcome = Return "error option" | Panic val | Block

text \<open>
  A non-nil function value: the pointer that \<^verbatim>\<open>TaskFunc.id\<close> reads, the name that
  \<^verbatim>\<open>runtime.FuncForPC(...).Name()\<close> reports, and what calling it does. A \<^verbatim>\<open>TaskFunc\<close>
  is such a value or \<^verbatim>\<open>nil\<close>.
\<close>

record func =
  ptr :: nat
  name :: string
  body :: outcome

type_synonym TaskFunc = "func option"

definition id' :: "TaskFunc \<Rightarrow> nat" where
  "id' self = (case self of None \<Rightarrow> 0 | Some f \<Rightarrow> ptr f)"

definition longName :: "TaskFunc \<Rightarrow> string" where
  "longName self = (case self of None \<Rightarrow> [] | Some f \<Rightarrow> name f)"

text \<open>Calling a nil function value is a run-time panic, whose payload is an error.\<close>

definition call :: "TaskFunc \<Rightarrow> outcome" where
  "call self =
     (case self of
        None \<Rightarrow> Panic (VError (Errorf ''runtime error: invalid memory address or nil pointer dereference'' []))
      | Some f \<Rightarrow> body f)"

text \<open>\<^verbatim>\<open>strings.LastIndex(name, ".")\<close>: the index of the last dot, or \<open>-1\<close>.\<close>

definition LastIndex :: "string \<Rightarrow> char \<Rightarrow> int" where
  "LastIndex s c =
     (if c \<in> set s
      then int (length s) - 1 - int (length (takeWhile (\<lambda>x. x \<noteq> c) (rev s)))
      else - 1)"

definition funcShortName :: "string \<Rightarrow> string" where
  "funcShortName nm =
     (let ind = LastIndex nm (CHR ''.'')
      in if ind \<ge> 0 then drop (nat (ind + 1)) nm else nm)"

definition ShortName :: "TaskFunc \<Rightarrow> string" where
  "ShortName self = funcShortName (longName self)"

text \<open>
  \<^verbatim>\<open>strings.EqualFold\<close>, for strings of ASCII characters only: the letters \<open>A\<close> to \<open>Z\<close> fold
  onto \<open>a\<close> to \<open>z\<close>. The model lets every other byte stand for itself, so it is not
  \<^verbatim>\<open>strings.EqualFold\<close> on strings with characters beyond ASCII, which Go folds by the
  Unicode tables; what is proved of names below is proved of ASCII names.
\<close>

definition ascii :: "string \<Rightarrow> bool" where
  "ascii s = list_all (\<lambda>c. (of_char c :: nat) < 128) s"

definition foldChar :: "char \<Rightarrow> char" where
  "foldChar c =
     (let n = (of_char c :: nat)
      in if 65 \<le> n \<and> n \<le> 90 then char_of (n + 32) else c)"

definition EqualFold :: "string \<Rightarrow> string \<Rightarrow> bool" where
  "EqualFold s t = (map foldChar s = map foldChar t)"

definition equalTaskName :: "TaskFunc \<Rightarrow> string \<Rightarrow> bool" where
  "equalTaskName self nm = EqualFold nm (ShortName self)"

definition equal :: "TaskFunc \<Rightarrow> TaskFunc \<Rightarrow> bool" where
  "equal self other = (id' self = id' other)"

definition equalTask :: "TaskFunc \<Rightarrow> TaskFunc \<Rightarrow> bool" where
  "equalTask self other = (equal self other \<or> equalTaskName self (ShortName other))"

section \<open>Task function lists and selection by name\<close>

type_synonym taskFuncs = "TaskFunc list"

text \<open>\<^verbatim>\<open>byTaskName\<close> answers \<^verbatim>\<open>nil\<close> (\<open>None\<close>) when no entry matches.\<close>

fun byTaskName :: "taskFuncs \<Rightarrow> string \<Rightarrow> TaskFunc" where
  "byTaskName [] nm = None"
| "byTaskName (v # self) nm = (if equalTaskName v nm then v else byTaskName self nm)"

definition hasTaskName :: "taskFuncs \<Rightarrow> string \<Rightarrow> bool" where
  "hasTaskName self nm = (byTaskName self nm \<noteq> None)"

fun hasTask :: "taskFuncs \<Rightarrow> TaskFunc \<Rightarrow> bool" where
  "hasTask [] v = False"
| "hasTask (x # self) v = (if equalTask x v then True else hasTask self v)"

definition shortNames :: "taskFuncs \<Rightarrow> string list" where
  "shortNames self = map ShortName self"

text \<open>
  \<^verbatim>\<open>taskFuncs.add\<close> has a pointer receiver: the model returns the error together with
  the list as the call leaves it.
\<close>

definition add :: "taskFuncs \<Rightarrow> TaskFunc \<Rightarrow> error option \<times> taskFuncs" where
  "add self v =
     (if v = None then (Some (Errorf ''unexpected nil task function'' []), self)
      else let nm = ShortName v in
        if nm = [] then
          (Some (Errorf ''unexpected unnamed task function %#v'' [ArgFunc (id' v)]), self)
        else if hasTaskName self nm then
          (Some (Errorf ''unexpected task function with duplicate name %q'' [ArgString nm]), self)
        else if hasTask self v then
          (Some (Errorf ''unexpected duplicate task function %q'' [ArgString (longName v)]), self)
        else (None, self @ [v]))"

text \<open>The loop of \<^verbatim>\<open>dedup\<close>, with the list built so far.\<close>

fun dedup_loop :: "taskFuncs \<Rightarrow> TaskFunc list \<Rightarrow> error + taskFuncs" where
  "dedup_loop out [] = Inr out"
| "dedup_loop out (f # funs) =
     (case add out f of
        (Some err, _) \<Rightarrow> Inl err
      | (None, out') \<Rightarrow> dedup_loop out' funs)"

definition dedup :: "TaskFunc list \<Rightarrow> error + taskFuncs" where
  "dedup funs = dedup_loop [] funs"

text \<open>The loop of \<^verbatim>\<open>Choose\<close> over the names, with the functions chosen so far.\<close>

fun choose_loop :: "taskFuncs \<Rightarrow> taskFuncs \<Rightarrow> string list \<Rightarrow> error + taskFuncs" where
  "choose_loop known chosen [] = Inr chosen"
| "choose_loop known chosen (nm # names) =
     (let f = byTaskName known nm in
      if f = None then
        Inl (Errorf ''unknown task %q; known tasks (case-insensitive): %q''
               [ArgString nm, ArgStrings (shortNames known)])
      else
        (case add chosen f of
           (Some err, _) \<Rightarrow> Inl err
         | (None, chosen') \<Rightarrow> choose_loop known chosen' names))"

definition Choose :: "string list \<Rightarrow> TaskFunc list \<Rightarrow> error + TaskFunc" where
  "Choose names funs =
     (case dedup funs of
        Inl err \<Rightarrow> Inl err
      | Inr known \<Rightarrow>
          (case choose_loop known [] names of
             Inl err \<Rightarrow> Inl err
           | Inr chosen \<Rightarrow>
               if length chosen = 0 then
                 Inl (Errorf ''no task specified, please choose one; known tasks (case-insensitive): %q''
                        [ArgStrings (shortNames known)])
               else if length chosen > 1 then
                 Inl (Errorf ''too many tasks specified, please choose one (case-insensitive): %q''
                        [ArgStrings (shortNames chosen)])
               else Inr (chosen ! 0)))"

section \<open>Tasks\<close>

text \<open>
  What the code does to shared state, in the order it does it: \<open>Store k a\<close> is
  \<^verbatim>\<open>self.tasks[id] = created\<close>, \<open>Go a\<close> is \<^verbatim>\<open>go created.run()\<close>, \<open>Call a\<close> is the call
  \<^verbatim>\<open>self.fun(...)\<close> inside \<^verbatim>\<open>run\<close>, \<open>SetErr a v\<close> is an assignment to \<^verbatim>\<open>self.err\<close> and
  \<open>Close a\<close> is \<^verbatim>\<open>close(self.done)\<close>, for the task object at address \<open>a\<close>.
\<close>

datatype event =
    Store nat nat
  | Go nat
  | Call nat
  | SetErr nat "error option"
  | Close nat

text \<open>
  The struct \<^verbatim>\<open>task\<close>. Of the channel \<^verbatim>\<open>done\<close> only whether it has been closed is
  kept. The embedded context and group pointer are the same for every task of a group
  and are left out; \<^verbatim>\<open>errLock\<close> only excludes concurrent access.
\<close>

record task =
  func :: TaskFunc
  doneClosed :: bool
  err :: "error option"

definition newTask :: "TaskFunc \<Rightarrow> task" where
  "newTask f = \<lparr>func = f, doneClosed = False, err = None\<rparr>"

definition Err :: "task \<Rightarrow> error option" where
  "Err self = err self"

text \<open>A running \<^verbatim>\<open>run\<close>: the task object and the effects so far.\<close>

type_synonym running = "task \<times> event list"

definition setErr :: "nat \<Rightarrow> error option \<Rightarrow> running \<Rightarrow> running" where
  "setErr a v st = ((fst st)\<lparr>err := v\<rparr>, snd st @ [SetErr a v])"

definition closeDone :: "nat \<Rightarrow> running \<Rightarrow> running" where
  "closeDone a st = ((fst st)\<lparr>doneClosed := True\<rparr>, snd st @ [Close a])"

text \<open>
  \<^verbatim>\<open>recover()\<close> in the deferred \<^verbatim>\<open>finalize\<close>: the payload of the panic in flight, and
  \<^verbatim>\<open>nil\<close> when the function returned. A panic whose payload is \<^verbatim>\<open>nil\<close> reads as \<^verbatim>\<open>nil\<close>
  too (Go before 1.21, and later releases for modules that declare an earlier version).
\<close>

definition recover :: "outcome \<Rightarrow> val" where
  "recover oc = (case oc of Panic v \<Rightarrow> v | _ \<Rightarrow> VNil)"

text \<open>\<^verbatim>\<open>finalize\<close>; the deferred \<^verbatim>\<open>close(self.done)\<close> runs last on every path.\<close>

definition finalize :: "nat \<Rightarrow> outcome \<Rightarrow> running \<Rightarrow> running" where
  "finalize a oc st =
     closeDone a
       (case err (fst st) of
          Some e \<Rightarrow>
            setErr a (Some (Errorf ''task %q finished with error: %w''
                              [ArgString (ShortName (func (fst st))), ArgError e])) st
        | None \<Rightarrow>
            (case recover oc of
               VError e \<Rightarrow>
                 setErr a (Some (Errorf ''task %q panicked with error: %w''
                                   [ArgString (ShortName (func (fst st))), ArgError e])) st
             | VOther v \<Rightarrow>
                 setErr a (Some (Errorf ''task %q panicked with non-error value %#v''
                                   [ArgString (ShortName (func (fst st))), ArgValue v])) st
             | VNil \<Rightarrow> st))"

text \<open>
  \<^verbatim>\<open>run\<close> for the task at address \<open>a\<close>. When the function returns, its error is
  assigned and \<^verbatim>\<open>finalize\<close> follows; when it panics, the assignment is skipped and
  \<^verbatim>\<open>finalize\<close> runs; when it never returns, nothing follows the call.
\<close>

definition run :: "nat \<Rightarrow> task \<Rightarrow> running" where
  "run a self =
     (let oc = call (func self); st = (self, [Call a])
      in case oc of
           Return e \<Rightarrow> finalize a oc (setErr a e st)
         | Panic v \<Rightarrow> finalize a oc st
         | Block \<Rightarrow> st)"

definition writes :: "event list \<Rightarrow> nat" where
  "writes evs = length (filter (\<lambda>e. case e of SetErr _ _ \<Rightarrow> True | _ \<Rightarrow> False) evs)"

definition closes :: "event list \<Rightarrow> nat" where
  "closes evs = length (filter (\<lambda>e. case e of Close _ \<Rightarrow> True | _ \<Rightarrow> False) evs)"

section \<open>The task group\<close>

text \<open>
  The state of one group: \<open>tasks\<close> is the map \<^verbatim>\<open>taskGroup.tasks\<close> from a function's
  identity to the address of its task (a nil map and an empty map read alike), \<open>heap\<close>
  holds the task objects (the address of an object is its index, \<^verbatim>\<open>newTask\<close> allocates
  at the end), \<open>goroutines\<close> are the \<^verbatim>\<open>go created.run()\<close> statements executed whose \<^verbatim>\<open>run\<close>
  has not started yet, \<open>events\<close> is the history of effects, and \<open>logOutput\<close> holds the
  errors written by \<^verbatim>\<open>Log\<close>.
\<close>

record world =
  tasks :: "nat \<rightharpoonup> nat"
  heap :: "task list"
  goroutines :: "nat list"
  events :: "event list"
  logOutput :: "error list"

definition init :: world where
  "init = \<lparr>tasks = Map.empty, heap = [], goroutines = [], events = [], logOutput = []\<rparr>"

text \<open>
  \<^verbatim>\<open>taskGroup.Task\<close>. The method holds the group's mutex from its first statement to
  its return, so calls by any number of goroutines take effect one after another: one
  call is one step of the model.
\<close>

definition Task :: "world \<Rightarrow> TaskFunc \<Rightarrow> nat \<times> world" where
  "Task s f =
     (let ident = id' f in
      case tasks s ident of
        Some existing \<Rightarrow> (existing, s)
      | None \<Rightarrow>
          (let created = length (heap s);
               s1 = s\<lparr>heap := heap s @ [newTask f]\<rparr>;
               s2 = s1\<lparr>tasks := (tasks s1)(ident \<mapsto> created),
                       events := events s1 @ [Store ident created]\<rparr>;
               s3 = s2\<lparr>goroutines := goroutines s2 @ [created],
                       events := events s2 @ [Go created]\<rparr>
           in (created, s3)))"

text \<open>
  The scheduler starts the goroutine of the task at \<open>a\<close>: \<^verbatim>\<open>run\<close> executes on the task
  object, once, and the goroutine is gone from the ones waiting to start. Nothing
  happens when no such goroutine waits.
\<close>

definition sched :: "world \<Rightarrow> nat \<Rightarrow> world" where
  "sched s a =
     (if a \<in> set (goroutines s) \<and> a < length (heap s) then
        (let r = run a (heap s ! a)
         in s\<lparr>heap := (heap s)[a := fst r],
              goroutines := remove1 a (goroutines s),
              events := events s @ snd r\<rparr>)
      else s)"

text \<open>
  What the goroutines of a program do to a group: calls of \<^verbatim>\<open>Task\<close> and starts of
  launched goroutines, in any order.
\<close>

datatype action = ATask TaskFunc | ASched nat

fun exec :: "world \<Rightarrow> action list \<Rightarrow> world" where
  "exec s [] = s"
| "exec s (ATask f # acts) = exec (snd (Task s f)) acts"
| "exec s (ASched a # acts) = exec (sched s a) acts"

text \<open>The calls of the function with identity \<open>k\<close> recorded in the history of \<open>s\<close>.\<close>

definition calls_of :: "world \<Rightarrow> nat \<Rightarrow> nat" where
  "calls_of s k =
     length (filter (\<lambda>e. case e of
                            Call a \<Rightarrow> a < length (heap s) \<and> id' (func (heap s ! a)) = k
                          | _ \<Rightarrow> False) (events s))"

section \<open>Waiting on one task\<close>

text \<open>
  The body of a task function in state-passing style: from the state of the group to
  what the call does (it returns an error, panics or never returns) and the state it
  leaves.
\<close>

type_synonym taskBody = "world \<Rightarrow> outcome \<times> world"

definition nilDeref :: val where
  "nilDeref = VError (Errorf ''runtime error: invalid memory address or nil pointer dereference'' [])"

definition indexOutOfRange :: val where
  "indexOutOfRange = VError (Errorf ''runtime error: index out of range'' [])"

text \<open>
  \<^verbatim>\<open>waitFor\<close>: \<^verbatim>\<open><-ctx.Done()\<close> then \<^verbatim>\<open>ctx.Err()\<close>, for the task at address \<open>a\<close>. The receive
  returns once the channel is closed. While the caller is parked the goroutine of the
  task gets to run, if it has not started yet; when that goroutine never closes the
  channel the caller never returns. An address outside the heap stands for a nil
  pointer.
\<close>

definition settle :: "world \<Rightarrow> nat \<Rightarrow> world" where
  "settle s a = (if doneClosed (heap s ! a) then s else sched s a)"

definition waitFor :: "world \<Rightarrow> nat \<Rightarrow> outcome \<times> world" where
  "waitFor s a =
     (if a < length (heap s) then
        (let s1 = settle s a
         in if doneClosed (heap s1 ! a) then (Return (Err (heap s1 ! a)), s1)
            else (Block, s1))
      else (Panic nilDeref, s))"

definition Wait :: "TaskFunc \<Rightarrow> taskBody" where
  "Wait f s = (let r = Task s f in waitFor (snd r) (fst r))"

text \<open>\<^verbatim>\<open>Log\<close> writes a non-nil error to \<^verbatim>\<open>logOutput\<close> and ignores \<^verbatim>\<open>nil\<close>.\<close>

definition Log :: "world \<Rightarrow> error option \<Rightarrow> world" where
  "Log s e = (case e of None \<Rightarrow> s | Some x \<Rightarrow> s\<lparr>logOutput := logOutput s @ [x]\<rparr>)"

text \<open>The closure returned by \<^verbatim>\<open>Opt(fun)\<close>.\<close>

definition Opt :: "TaskFunc \<Rightarrow> taskBody" where
  "Opt f s =
     (case Wait f s of
        (Return e, s1) \<Rightarrow> (Return None, Log s1 e)
      | (Panic v, s1) \<Rightarrow> (Panic v, s1)
      | (Block, s1) \<Rightarrow> (Block, s1))"

text \<open>The closure returned by \<^verbatim>\<open>Ser(funs...)\<close>: the loop over \<^verbatim>\<open>funs\<close>.\<close>

fun Ser :: "TaskFunc list \<Rightarrow> taskBody" where
  "Ser [] s = (Return None, s)"
| "Ser (f # funs) s =
     (case Wait f s of
        (Return None, s1) \<Rightarrow> Ser funs s1
      | (Return (Some e), s1) \<Rightarrow> (Return (Some e), s1)
      | (Panic v, s1) \<Rightarrow> (Panic v, s1)
      | (Block, s1) \<Rightarrow> (Block, s1))"

section \<open>The wait group\<close>

text \<open>
  A channel is known by the task whose \<^verbatim>\<open>newTask\<close> made it; \<^verbatim>\<open>Done\<close> of the task at \<open>a\<close>
  is that channel. A \<^verbatim>\<open>reflect.SelectCase\<close> keeps its direction and channel.
\<close>

datatype chan = DoneOf nat

datatype SelectDir = SelectSend | SelectRecv | SelectDefault

record SelectCase =
  Dir :: SelectDir
  Chan :: chan

definition Done :: "nat \<Rightarrow> chan" where
  "Done a = DoneOf a"

text \<open>The struct \<^verbatim>\<open>waitGroup\<close>: the slices \<^verbatim>\<open>tasks\<close> and \<^verbatim>\<open>cases\<close>.\<close>

record waitGroup =
  wtasks :: "nat list"
  wcases :: "SelectCase list"

definition makeWaitGroup :: "nat \<Rightarrow> waitGroup" where
  "makeWaitGroup n = \<lparr>wtasks = [], wcases = []\<rparr>"

definition wg_add :: "waitGroup \<Rightarrow> nat \<Rightarrow> waitGroup" where
  "wg_add self t =
     self\<lparr>wtasks := wtasks self @ [t],
          wcases := wcases self @ [\<lparr>Dir = SelectRecv, Chan = Done t\<rparr>]\<rparr>"

text \<open>
  The builtin \<^verbatim>\<open>copy(dst, src)\<close>, as the contents of \<open>dst\<close> afterwards: the first
  \<open>min (len dst) (len src)\<close> elements come from \<open>src\<close>.
\<close>

definition copy :: "'a list \<Rightarrow> 'a list \<Rightarrow> 'a list" where
  "copy dst src =
     (let n = min (length dst) (length src) in take n src @ drop n dst)"

text \<open>
  \<^verbatim>\<open>copy(xs[index:], xs[index+1:])\<close> followed by \<^verbatim>\<open>xs[:len(xs)-1]\<close>: the part of the
  backing array before \<open>index\<close> stays, the rest is what \<^verbatim>\<open>copy\<close> leaves.
\<close>

definition shift_out :: "'a list \<Rightarrow> nat \<Rightarrow> 'a list" where
  "shift_out xs i = take (length xs - 1) (take i xs @ copy (drop i xs) (drop (i + 1) xs))"

text \<open>
  \<^verbatim>\<open>waitGroup.remove\<close>. The index expression \<^verbatim>\<open>self.tasks[index]\<close> panics outside the
  slice, before anything is changed; the slice expression \<^verbatim>\<open>cases[index+1:]\<close> panics
  when \<^verbatim>\<open>cases\<close> is shorter, after \<^verbatim>\<open>tasks\<close> has been changed. A panic is \<open>None\<close> in the
  first component.
\<close>

definition wg_remove :: "waitGroup \<Rightarrow> int \<Rightarrow> nat option \<times> waitGroup" where
  "wg_remove self index =
     (if index < 0 \<or> int (length (wtasks self)) \<le> index then (None, self)
      else
        (let i = nat index;
             t = wtasks self ! i;
             self1 = self\<lparr>wtasks := shift_out (wtasks self) i\<rparr>
         in if length (wcases self1) < i + 1 then (None, self1)
            else (Some t, self1\<lparr>wcases := shift_out (wcases self1) i\<rparr>)))"

text \<open>
  Whether a receive from the channel can proceed, now or once the goroutine that
  closes it has run.
\<close>

definition closes_eventually :: "world \<Rightarrow> chan \<Rightarrow> bool" where
  "closes_eventually s c =
     (case c of DoneOf a \<Rightarrow> a < length (heap s) \<and> doneClosed (heap (settle s a) ! a))"

definition ready :: "world \<Rightarrow> SelectCase list \<Rightarrow> nat list" where
  "ready s cs =
     filter (\<lambda>i. Dir (cs ! i) = SelectRecv \<and> closes_eventually s (Chan (cs ! i))) [0 ..< length cs]"

text \<open>
  \<^verbatim>\<open>reflect.Select\<close> supports at most 65536 cases and panics, with a string, when it
  is given more.
\<close>

definition maxSelectCases :: nat where
  "maxSelectCases = 65536"

definition tooManyCases :: val where
  \<open>tooManyCases = VOther ''"reflect.Select: too many cases (max 65536)"''\<close>

text \<open>
  \<^verbatim>\<open>reflect.Select\<close> on receive cases. With more than 65536 cases it panics (\<open>Inl\<close>).
  Otherwise it blocks until some case can proceed and chooses among those that can; the
  choice is read from \<open>rs\<close>, a supply of arbitrary numbers, so that every choice the
  run-time system may make is one of the model's. When no case ever can proceed the
  call never returns (\<open>Inr None\<close>). The chosen case's channel is closed in the state
  returned.
\<close>

definition Select ::
  "nat list \<Rightarrow> world \<Rightarrow> SelectCase list \<Rightarrow> val + (int \<times> world \<times> nat list) option" where
  "Select rs s cs =
     (if maxSelectCases < length cs then Inl tooManyCases
      else
        (let rdy = ready s cs in
         if rdy = [] then Inr None
         else
           (let r = (case rs of [] \<Rightarrow> 0 | x # _ \<Rightarrow> x);
                i = rdy ! (r mod length rdy)
            in Inr (Some (int i, (case Chan (cs ! i) of DoneOf a \<Rightarrow> settle s a), tl rs)))))"

text \<open>\<^verbatim>\<open>task.Err()\<close> through a pointer; an address outside the heap is a nil pointer.\<close>

definition ErrAt :: "world \<Rightarrow> nat \<Rightarrow> val + error option" where
  "ErrAt s a = (if a < length (heap s) then Inr (Err (heap s ! a)) else Inl nilDeref)"

text \<open>
  \<^verbatim>\<open>waitGroup.wait\<close>, with the wait group as the loop leaves it. A panic of
  \<^verbatim>\<open>reflect.Select\<close>, of \<^verbatim>\<open>remove\<close> or of \<^verbatim>\<open>Err\<close> is not recovered here and ends the call.
\<close>

function wg_wait :: "nat list \<Rightarrow> world \<Rightarrow> waitGroup \<Rightarrow> outcome \<times> world \<times> waitGroup" where
  "wg_wait rs s self =
     (if length (wcases self) > 0 then
        (case Select rs s (wcases self) of
           Inl v \<Rightarrow> (Panic v, s, self)
         | Inr None \<Rightarrow> (Block, s, self)
         | Inr (Some (index, s1, rs1)) \<Rightarrow>
             (case wg_remove self index of
                (None, self1) \<Rightarrow> (Panic indexOutOfRange, s1, self1)
              | (Some t, self1) \<Rightarrow>
                  (case ErrAt s1 t of
                     Inl v \<Rightarrow> (Panic v, s1, self1)
                   | Inr (Some e) \<Rightarrow> (Return (Some e), s1, self1)
                   | Inr None \<Rightarrow> wg_wait rs1 s1 self1)))
      else (Return None, s, self))"
  by pat_completeness auto
termination
  apply (relation "measure (\<lambda>(rs, s, self). length (wcases self))")
   apply simp
  apply (auto simp: wg_remove_def shift_out_def Let_def split: if_splits)
  done

declare wg_wait.simps [simp del]

text \<open>The closure returned by \<^verbatim>\<open>Par(funs...)\<close>; \<open>par_add\<close> is its loop over \<^verbatim>\<open>funs\<close>.\<close>

fun par_add :: "waitGroup \<Rightarrow> TaskFunc list \<Rightarrow> world \<Rightarrow> waitGroup \<times> world" where
  "par_add wg [] s = (wg, s)"
| "par_add wg (f # funs) s = (let r = Task s f in par_add (wg_add wg (fst r)) funs (snd r))"

definition Par_wait :: "nat list \<Rightarrow> TaskFunc list \<Rightarrow> taskBody" where
  "Par_wait rs funs s =
     (let r = par_add (makeWaitGroup (length funs)) funs s;
          w = wg_wait rs (snd r) (fst r)
      in (fst w, fst (snd w)))"

definition Par :: "nat list \<Rightarrow> TaskFunc list \<Rightarrow> taskBody" where
  "Par rs funs s =
     (if length funs = 0 then (Return None, s)
      else if length funs = 1 then Wait (funs ! 0) s
      else Par_wait rs funs s)"

section \<open>Invariant of the group and example values\<close>

text \<open>
  What holds of a group in every state that calls of \<^verbatim>\<open>Task\<close> and starts of goroutines
  reach: the map and the heap describe each other, a goroutine waits to start at most
  once and only for a task that has not been called and is as \<^verbatim>\<open>newTask\<close> made it, each
  task was launched once and called at most once, and its store in the map is followed
  at once by its launch.
\<close>

definition group_inv :: "world \<Rightarrow> bool" where
  "group_inv s \<longleftrightarrow>
     (\<forall>k a. tasks s k = Some a \<longrightarrow> a < length (heap s) \<and> id' (func (heap s ! a)) = k) \<and>
     (\<forall>a < length (heap s). tasks s (id' (func (heap s ! a))) = Some a) \<and>
     distinct (goroutines s) \<and>
     (\<forall>a \<in> set (goroutines s).
         a < length (heap s) \<and> count_list (events s) (Call a) = 0 \<and>
         heap s ! a = newTask (func (heap s ! a))) \<and>
     (\<forall>a. count_list (events s) (Call a) \<le> (if a < length (heap s) then 1 else 0)) \<and>
     (\<forall>a. count_list (events s) (Go a) = (if a < length (heap s) then 1 else 0)) \<and>
     (\<forall>a < length (heap s). \<exists>pre post.
         events s = pre @ Store (id' (func (heap s ! a))) a # Go a # post)"

text \<open>Task functions of the test suite, and three more: a panic without payload, a
  function that never returns, and the panic of the suite's \<^verbatim>\<open>waitDone\<close>.\<close>

definition TaskFuncNop0 :: TaskFunc where
  "TaskFuncNop0 = Some \<lparr>ptr = 1, name = ''gtg.TaskFuncNop0'', body = Return None\<rparr>"

definition TaskFuncNop1 :: TaskFunc where
  "TaskFuncNop1 = Some \<lparr>ptr = 2, name = ''gtg.TaskFuncNop1'', body = Return None\<rparr>"

definition TaskFuncImmediateErr :: TaskFunc where
  "TaskFuncImmediateErr =
     Some \<lparr>ptr = 3, name = ''gtg.TaskFuncImmediateErr'',
           body = Return (Some (Errorf ''immediate error'' []))\<rparr>"

definition TaskFuncPanicNil :: TaskFunc where
  "TaskFuncPanicNil = Some \<lparr>ptr = 4, name = ''main.PanicNil'', body = Panic VNil\<rparr>"

definition TaskFuncForever :: TaskFunc where
  "TaskFuncForever = Some \<lparr>ptr = 5, name = ''main.Forever'', body = Block\<rparr>"

definition TaskFuncPanicText :: TaskFunc where
  \<open>TaskFuncPanicText =
     Some \<lparr>ptr = 6, name = ''main.PanicText'', body = Panic (VOther ''"timed out"'')\<rparr>\<close>

text \<open>An effect that is neither the call, nor a write to the result, nor the close of the task at \<open>a\<close>.\<close>

definition untouched :: "nat \<Rightarrow> event \<Rightarrow> bool" where
  "untouched a e \<longleftrightarrow>
     e \<noteq> Call a \<and> e \<noteq> Close a \<and> (case e of SetErr b v \<Rightarrow> b \<noteq> a | _ \<Rightarrow> True)"

text \<open>The task functions of the example \<^verbatim>\<open>examples/site.go\<close>, as passed to \<^verbatim>\<open>MustRunCmd\<close>.\<close>

definition site_build :: TaskFunc where
  "site_build = Some \<lparr>ptr = 11, name = ''main.build'', body = Return None\<rparr>"

definition site_templates :: TaskFunc where
  "site_templates = Some \<lparr>ptr = 12, name = ''main.templates'', body = Return None\<rparr>"

definition site_templatesW :: TaskFunc where
  "site_templatesW = Some \<lparr>ptr = 13, name = ''main.templatesW'', body = Return None\<rparr>"

definition site_styles :: TaskFunc where
  "site_styles = Some \<lparr>ptr = 14, name = ''main.styles'', body = Return None\<rparr>"

text \<open>Calls of \<^verbatim>\<open>add\<close> and \<^verbatim>\<open>remove\<close> on a wait group, one after another.\<close>

datatype wg_op = OpAdd nat | OpRemove int

fun wg_run :: "waitGroup \<Rightarrow> wg_op list \<Rightarrow> waitGroup" where
  "wg_run wg [] = wg"
| "wg_run wg (OpAdd t # ops) = wg_run (wg_add wg t) ops"
| "wg_run wg (OpRemove i # ops) = wg_run (snd (wg_remove wg i)) ops"

text \<open>The two slices of a wait group describe the same entries, in the same order.\<close>

definition paired :: "waitGroup \<Rightarrow> bool" where
  "paired wg \<longleftrightarrow> wcases wg = map (\<lambda>t. \<lparr>Dir = SelectRecv, Chan = Done t\<rparr>) (wtasks wg)"


text \<open>
  The result the task at \<open>a\<close> completes with, as seen from the state \<open>s\<close>: \<open>None\<close> when
  its completion channel never closes.
\<close>

definition result_at :: "world \<Rightarrow> nat \<Rightarrow> error option option" where
  "result_at s a =
     (if doneClosed (heap (settle s a) ! a) then Some (Err (heap (settle s a) ! a)) else None)"

text \<open>The wait group without its entry at index \<open>i\<close>.\<close>

definition without :: "waitGroup \<Rightarrow> nat \<Rightarrow> waitGroup" where
  "without wg i =
     wg\<lparr>wtasks := take i (wtasks wg) @ drop (Suc i) (wtasks wg),
        wcases := take i (wcases wg) @ drop (Suc i) (wcases wg)\<rparr>"


text \<open>The task of \<open>f\<close> is in the map and has completed with the result \<^verbatim>\<open>nil\<close>.\<close>

definition finished_nil :: "world \<Rightarrow> TaskFunc \<Rightarrow> bool" where
  "finished_nil s f \<longleftrightarrow>
     (\<exists>t. tasks s (id' f) = Some t \<and> t < length (heap s) \<and> doneClosed (heap s ! t)
          \<and> Err (heap s ! t) = None)"


text \<open>A group with three tasks launched and none started: one succeeds, one fails, one never ends.\<close>

definition three_tasks :: world where
  "three_tasks = exec init [ATask TaskFuncNop0, ATask TaskFuncImmediateErr, ATask TaskFuncForever]"

text \<open>
  A list of task functions that \<^verbatim>\<open>dedup\<close> accepts: no \<^verbatim>\<open>nil\<close> entry, no empty short name,
  no function twice, no short name twice (letter case aside).
\<close>

definition well_named :: "taskFuncs \<Rightarrow> bool" where
  "well_named self \<longleftrightarrow>
     None \<notin> set self \<and> [] \<notin> set (map ShortName self) \<and> distinct (map id' self)
     \<and> distinct (map (map foldChar \<circ> ShortName) self)"

section \<open>Facts about \<^verbatim>\<open>run\<close> and the group invariant\<close>

lemma run_func: "func (fst (run a t)) = func t"
  by (cases "call (func t)")
     (auto simp: run_def finalize_def setErr_def closeDone_def Let_def split: option.splits val.splits)

lemma run_count_Call: "count_list (snd (run a t)) (Call b) = (if a = b then 1 else 0)"
  by (cases "call (func t)")
     (auto simp: run_def finalize_def setErr_def closeDone_def Let_def split: option.splits val.splits)

lemma run_count_Go: "count_list (snd (run a t)) (Go b) = 0"
  by (cases "call (func t)")
     (auto simp: run_def finalize_def setErr_def closeDone_def Let_def split: option.splits val.splits)

lemma group_inv_init: "group_inv init"
  by (simp add: group_inv_def init_def)

lemma Task_existing: "tasks s (id' f) = Some a \<Longrightarrow> Task s f = (a, s)"
  by (simp add: Task_def)

lemma Task_created:
  "tasks s (id' f) = None \<Longrightarrow>
   Task s f = (length (heap s),
     s\<lparr>heap := heap s @ [newTask f],
       tasks := (tasks s)(id' f \<mapsto> length (heap s)),
       goroutines := goroutines s @ [length (heap s)],
       events := events s @ [Store (id' f) (length (heap s)), Go (length (heap s))]\<rparr>)"
  by (simp add: Task_def Let_def)

lemma group_inv_Task:
  assumes "group_inv s"
  shows "group_inv (snd (Task s f))"
proof (cases "tasks s (id' f)")
  case (Some a)
  then show ?thesis using assms by (simp add: Task_existing)
next
  case None
  let ?n = "length (heap s)"
  let ?h = "heap s @ [newTask f]"
  let ?ev = "events s @ [Store (id' f) ?n, Go ?n]"
  have i1: "\<forall>k a. tasks s k = Some a \<longrightarrow> a < ?n \<and> id' (func (heap s ! a)) = k"
    and i2: "\<forall>a < ?n. tasks s (id' (func (heap s ! a))) = Some a"
    and i3: "distinct (goroutines s)"
    and i4: "\<forall>a \<in> set (goroutines s).
               a < ?n \<and> count_list (events s) (Call a) = 0 \<and>
               heap s ! a = newTask (func (heap s ! a))"
    and i5: "\<forall>a. count_list (events s) (Call a) \<le> (if a < ?n then 1 else 0)"
    and i6: "\<forall>a. count_list (events s) (Go a) = (if a < ?n then 1 else 0)"
    and i7: "\<forall>a < ?n. \<exists>pre post. events s = pre @ Store (id' (func (heap s ! a))) a # Go a # post"
    using assms unfolding group_inv_def by blast+
  have fresh: "id' (func (heap s ! a)) \<noteq> id' f" if "a < ?n" for a
    using i2 that None by force
  have nog: "?n \<notin> set (goroutines s)"
    using i4 by blast
  have hn: "func (?h ! a) = (if a < ?n then func (heap s ! a) else f)" if "a < Suc ?n" for a
    using that by (auto simp: nth_append newTask_def)
  have j1: "a < Suc ?n \<and> id' (func (?h ! a)) = k"
    if "((tasks s)(id' f \<mapsto> ?n)) k = Some a" for k a
  proof (cases "k = id' f")
    case True
    with that have "a = ?n" by simp
    then show ?thesis using True by (simp add: newTask_def)
  next
    case False
    with that have "tasks s k = Some a" by simp
    with i1 have "a < ?n" "id' (func (heap s ! a)) = k" by blast+
    then show ?thesis by (simp add: nth_append)
  qed
  have j2: "((tasks s)(id' f \<mapsto> ?n)) (id' (func (?h ! a))) = Some a" if "a < Suc ?n" for a
  proof (cases "a = ?n")
    case True
    then show ?thesis by (simp add: newTask_def)
  next
    case False
    with that have lt: "a < ?n" by simp
    then show ?thesis using fresh[OF lt] i2 by (simp add: nth_append)
  qed
  have j3: "distinct (goroutines s @ [?n])"
    using i3 nog by simp
  have j4: "a < Suc ?n \<and> count_list ?ev (Call a) = 0 \<and> ?h ! a = newTask (func (?h ! a))"
    if "a \<in> set (goroutines s @ [?n])" for a
  proof (cases "a = ?n")
    case True
    have "count_list (events s) (Call ?n) = 0"
      using i5[rule_format, of ?n] by simp
    then show ?thesis using True by (simp add: newTask_def)
  next
    case False
    with that have "a \<in> set (goroutines s)" by simp
    with i4 have "a < ?n" "count_list (events s) (Call a) = 0"
        "heap s ! a = newTask (func (heap s ! a))"
      by blast+
    then show ?thesis by (simp add: nth_append)
  qed
  have j5: "count_list ?ev (Call a) \<le> (if a < Suc ?n then 1 else 0)" for a
    using i5[rule_format, of a] by (simp split: if_splits)
  have j6: "count_list ?ev (Go a) = (if a < Suc ?n then 1 else 0)" for a
    using i6[rule_format, of a] by (simp split: if_splits)
  have j7: "\<exists>pre post. ?ev = pre @ Store (id' (func (?h ! a))) a # Go a # post"
    if "a < Suc ?n" for a
  proof (cases "a = ?n")
    case True
    have "?ev = events s @ Store (id' (func (?h ! a))) a # Go a # []"
      using True by (simp add: newTask_def)
    then show ?thesis by blast
  next
    case False
    with that have lt: "a < ?n" by simp
    with i7 obtain pre post where "events s = pre @ Store (id' (func (heap s ! a))) a # Go a # post"
      by blast
    then have "?ev = pre @ Store (id' (func (?h ! a))) a # Go a # (post @ [Store (id' f) ?n, Go ?n])"
      using lt by (simp add: nth_append)
    then show ?thesis by blast
  qed
  show ?thesis
    unfolding Task_created[OF None] group_inv_def
    using j1 j2 j3 j4 j5 j6 j7 by simp
qed


lemma sched_idle: "\<not> (a \<in> set (goroutines s) \<and> a < length (heap s)) \<Longrightarrow> sched s a = s"
  unfolding sched_def by (simp only: if_False)

lemma sched_started:
  "a \<in> set (goroutines s) \<Longrightarrow> a < length (heap s) \<Longrightarrow>
   sched s a = s\<lparr>heap := (heap s)[a := fst (run a (heap s ! a))],
                 goroutines := remove1 a (goroutines s),
                 events := events s @ snd (run a (heap s ! a))\<rparr>"
  by (simp add: sched_def Let_def)

lemma group_inv_sched:
  assumes "group_inv s"
  shows "group_inv (sched s a)"
proof (cases "a \<in> set (goroutines s) \<and> a < length (heap s)")
  case False
  then show ?thesis using assms by (simp add: sched_idle)
next
  case True
  then have ag: "a \<in> set (goroutines s)" and al: "a < length (heap s)" by simp_all
  let ?n = "length (heap s)"
  let ?r = "run a (heap s ! a)"
  let ?h = "(heap s)[a := fst ?r]"
  let ?ev = "events s @ snd ?r"
  have i1: "\<forall>k a. tasks s k = Some a \<longrightarrow> a < ?n \<and> id' (func (heap s ! a)) = k"
    and i2: "\<forall>a < ?n. tasks s (id' (func (heap s ! a))) = Some a"
    and i3: "distinct (goroutines s)"
    and i4: "\<forall>a \<in> set (goroutines s).
               a < ?n \<and> count_list (events s) (Call a) = 0 \<and>
               heap s ! a = newTask (func (heap s ! a))"
    and i5: "\<forall>a. count_list (events s) (Call a) \<le> (if a < ?n then 1 else 0)"
    and i6: "\<forall>a. count_list (events s) (Go a) = (if a < ?n then 1 else 0)"
    and i7: "\<forall>a < ?n. \<exists>pre post. events s = pre @ Store (id' (func (heap s ! a))) a # Go a # post"
    using assms unfolding group_inv_def by blast+
  have hf: "func (?h ! b) = func (heap s ! b)" if "b < ?n" for b
    using that by (cases "b = a") (simp_all add: run_func)
  have j1: "b < ?n \<and> id' (func (?h ! b)) = k" if "tasks s k = Some b" for k b
    using i1 that hf by force
  have j2: "tasks s (id' (func (?h ! b))) = Some b" if "b < ?n" for b
    using i2 that hf by simp
  have j3: "distinct (remove1 a (goroutines s))"
    using i3 by simp
  have j4: "b < ?n \<and> count_list ?ev (Call b) = 0 \<and> ?h ! b = newTask (func (?h ! b))"
    if "b \<in> set (remove1 a (goroutines s))" for b
  proof -
    from that i3 have "b \<in> set (goroutines s)" "b \<noteq> a" by auto
    with i4 have "b < ?n" "count_list (events s) (Call b) = 0"
        "heap s ! b = newTask (func (heap s ! b))"
      by blast+
    then show ?thesis using \<open>b \<noteq> a\<close> by (simp add: run_count_Call)
  qed
  have a0: "count_list (events s) (Call a) = 0"
    using i4 ag by blast
  have j5: "count_list ?ev (Call b) \<le> (if b < ?n then 1 else 0)" for b
  proof (cases "b = a")
    case True
    then show ?thesis using a0 al by (simp add: run_count_Call)
  next
    case False
    then show ?thesis using i5[rule_format, of b] by (simp add: run_count_Call)
  qed
  have j6: "count_list ?ev (Go b) = (if b < ?n then 1 else 0)" for b
    using i6[rule_format, of b] by (simp add: run_count_Go)
  have j7: "\<exists>pre post. ?ev = pre @ Store (id' (func (?h ! b))) b # Go b # post" if "b < ?n" for b
  proof -
    from i7 that obtain pre post
      where "events s = pre @ Store (id' (func (heap s ! b))) b # Go b # post"
      by blast
    then have "?ev = pre @ Store (id' (func (?h ! b))) b # Go b # (post @ snd ?r)"
      using hf[OF that] by simp
    then show ?thesis by blast
  qed
  show ?thesis
    unfolding sched_started[OF ag al] group_inv_def
    using j1 j2 j3 j4 j5 j6 j7 by simp
qed

lemma group_inv_exec: "group_inv s \<Longrightarrow> group_inv (exec s acts)"
proof (induction acts arbitrary: s)
  case Nil
  then show ?case by simp
next
  case (Cons act acts)
  then show ?case
    by (cases act) (simp_all add: group_inv_Task group_inv_sched)
qed

lemma tasks_Task_mono: "tasks s k = Some a \<Longrightarrow> tasks (snd (Task s f)) k = Some a"
  by (cases "tasks s (id' f)") (auto simp: Task_existing Task_created)

lemma tasks_sched: "tasks (sched s a) = tasks s"
  by (simp add: sched_def Let_def)

lemma tasks_exec_mono: "tasks s k = Some a \<Longrightarrow> tasks (exec s acts) k = Some a"
proof (induction acts arbitrary: s)
  case Nil
  then show ?case by simp
next
  case (Cons act acts)
  then show ?case
    by (cases act) (simp_all add: tasks_Task_mono tasks_sched)
qed

lemma Task_registers: "Task s f = (t, s1) \<Longrightarrow> tasks s1 (id' f) = Some t"
  by (cases "tasks s (id' f)") (auto simp: Task_existing Task_created)

lemma filter_le_count:
  assumes "\<And>e. e \<in> set xs \<Longrightarrow> P e \<Longrightarrow> e = x"
  shows "length (filter P xs) \<le> count_list xs x"
  using assms
proof (induction xs)
  case Nil
  then show ?case by simp
next
  case (Cons y ys)
  have ih: "length (filter P ys) \<le> count_list ys x"
    by (rule Cons.IH) (rule Cons.prems, simp_all)
  show ?case
  proof (cases "P y")
    case True
    have "y = x" by (rule Cons.prems) (simp_all add: True)
    then show ?thesis using ih True by simp
  next
    case False
    then show ?thesis using ih by simp
  qed
qed

lemma group_inv_calls_of:
  assumes "group_inv s"
  shows "calls_of s k \<le> 1"
proof (cases "tasks s k")
  case None
  have "\<not> (a < length (heap s) \<and> id' (func (heap s ! a)) = k)" for a
    using assms None unfolding group_inv_def by force
  then have "filter (\<lambda>e. case e of
                            Call a \<Rightarrow> a < length (heap s) \<and> id' (func (heap s ! a)) = k
                          | _ \<Rightarrow> False) (events s) = []"
    by (auto simp: filter_empty_conv split: event.splits)
  then show ?thesis by (simp add: calls_of_def)
next
  case (Some t)
  have only: "a = t" if "a < length (heap s)" "id' (func (heap s ! a)) = k" for a
    using assms Some that unfolding group_inv_def by force
  have "calls_of s k \<le> count_list (events s) (Call t)"
    unfolding calls_of_def
    by (rule filter_le_count) (auto split: event.splits dest: only)
  also have "\<dots> \<le> 1"
  proof -
    have "count_list (events s) (Call t) \<le> (if t < length (heap s) then 1 else 0)"
      using assms unfolding group_inv_def by blast
    then show ?thesis by (simp split: if_splits)
  qed
  finally show ?thesis .
qed

section \<open>Deduplication\<close>

text \<open>
  Claim C1. Take any state \<open>s\<close> that calls of \<^verbatim>\<open>Task\<close> and starts of goroutines reach
  from the empty group, a call \<^verbatim>\<open>g.Task(f)\<close> there that returns the task \<open>t\<close>, and
  any state \<open>s2\<close> reached later, whatever other callers did in between. A call
  \<^verbatim>\<open>g.Task(f)\<close> in \<open>s2\<close> returns the same object \<open>t\<close> and changes nothing; the map still
  holds \<open>t\<close> under the key of \<open>f\<close>, no other task object was made for that key, and every
  key keeps the task it had; the function with that key has been called at most once;
  \<open>t\<close> was launched exactly once; and the store of \<open>t\<close> in the map comes right before its
  launch in the history.
\<close>

theorem Task_dedup_once:
  assumes "s = exec init acts" and "Task s f = (t, s1)" and "s2 = exec s1 later"
  shows "Task s2 f = (t, s2)
       \<and> tasks s2 (id' f) = Some t
       \<and> (\<forall>a < length (heap s2). id' (func (heap s2 ! a)) = id' f \<longrightarrow> a = t)
       \<and> (\<forall>k a. tasks s k = Some a \<longrightarrow> tasks s2 k = Some a)
       \<and> calls_of s2 (id' f) \<le> 1
       \<and> count_list (events s2) (Go t) = 1
       \<and> (\<exists>pre post. events s2 = pre @ Store (id' f) t # Go t # post)"
proof -
  have inv_s: "group_inv s"
    using assms(1) by (simp add: group_inv_exec group_inv_init)
  have "s1 = snd (Task s f)" using assms(2) by simp
  then have "group_inv s1" using inv_s by (simp add: group_inv_Task)
  then have inv2: "group_inv s2" using assms(3) by (simp add: group_inv_exec)
  have reg: "tasks s2 (id' f) = Some t"
    using assms(2,3) by (simp add: Task_registers tasks_exec_mono)
  have lt: "t < length (heap s2)" and key: "id' (func (heap s2 ! t)) = id' f"
    using inv2 reg unfolding group_inv_def by blast+
  have go: "count_list (events s2) (Go t) = 1"
    using inv2 lt unfolding group_inv_def by simp
  have "\<exists>pre post. events s2 = pre @ Store (id' (func (heap s2 ! t))) t # Go t # post"
    using inv2 lt unfolding group_inv_def by blast
  then have ord: "\<exists>pre post. events s2 = pre @ Store (id' f) t # Go t # post"
    using key by simp
  have only: "a = t" if "a < length (heap s2)" "id' (func (heap s2 ! a)) = id' f" for a
  proof -
    have "tasks s2 (id' (func (heap s2 ! a))) = Some a"
      using inv2 that(1) unfolding group_inv_def by blast
    then show ?thesis using reg that(2) by simp
  qed
  have keep: "tasks s2 k = Some a" if "tasks s k = Some a" for k a
  proof -
    have "tasks s1 k = Some a" using tasks_Task_mono[OF that, of f] assms(2) by simp
    then show ?thesis unfolding assms(3) by (rule tasks_exec_mono)
  qed
  show ?thesis
    using reg go ord only keep group_inv_calls_of[OF inv2] by (simp add: Task_existing)
qed

theorem Task_dedup_once_witness:
  "Task (exec (snd (Task (exec init [ATask TaskFuncNop0]) TaskFuncImmediateErr))
          [ASched 1, ATask TaskFuncImmediateErr, ATask TaskFuncNop1]) TaskFuncImmediateErr
     = (fst (Task (exec init [ATask TaskFuncNop0]) TaskFuncImmediateErr),
        exec (snd (Task (exec init [ATask TaskFuncNop0]) TaskFuncImmediateErr))
          [ASched 1, ATask TaskFuncImmediateErr, ATask TaskFuncNop1])
   \<and> calls_of (exec (snd (Task (exec init [ATask TaskFuncNop0]) TaskFuncImmediateErr))
          [ASched 1, ATask TaskFuncImmediateErr, ATask TaskFuncNop1]) (id' TaskFuncImmediateErr) \<le> 1"
  using Task_dedup_once [OF refl prod.collapse [symmetric] refl,
      of "[ATask TaskFuncNop0]" TaskFuncImmediateErr
         "[ASched 1, ATask TaskFuncImmediateErr, ATask TaskFuncNop1]"]
  by simp

section \<open>The result of a task\<close>

lemmas run_unfold =
  run_def finalize_def setErr_def closeDone_def recover_def newTask_def Err_def Let_def

text \<open>
  Claim C2, as amended. When the task function returns, a \<^verbatim>\<open>nil\<close> return leaves the
  result \<^verbatim>\<open>nil\<close>, and a non-nil return \<open>e\<close> leaves the error
  \<^verbatim>\<open>task "<short name>" finished with error: %w\<close> built around \<open>e\<close>, whose \<^verbatim>\<open>Unwrap\<close> is
  \<open>e\<close>; in both cases the completion channel is closed.
\<close>

theorem run_return_wraps:
  assumes "call f = Return r"
  shows "Err (fst (run a (newTask f))) =
           (case r of
              None \<Rightarrow> None
            | Some e \<Rightarrow> Some (Errorf ''task %q finished with error: %w''
                               [ArgString (ShortName f), ArgError e]))
       \<and> map_option Unwrap (Err (fst (run a (newTask f)))) = map_option Some r
       \<and> doneClosed (fst (run a (newTask f)))"
  using assms by (cases r) (simp_all add: run_unfold)

theorem run_return_wraps_witness:
  "call TaskFuncImmediateErr = Return (Some (Errorf ''immediate error'' []))
   \<and> Err (fst (run 0 (newTask TaskFuncImmediateErr))) =
       Some (Errorf ''task %q finished with error: %w''
               [ArgString ''TaskFuncImmediateErr'', ArgError (Errorf ''immediate error'' [])])
   \<and> call TaskFuncNop0 = Return None
   \<and> Err (fst (run 0 (newTask TaskFuncNop0))) = None"
proof -
  have h1: "call TaskFuncImmediateErr = Return (Some (Errorf ''immediate error'' []))"
    by (simp add: call_def TaskFuncImmediateErr_def)
  have h0: "call TaskFuncNop0 = Return None"
    by (simp add: call_def TaskFuncNop0_def)
  have n: "ShortName TaskFuncImmediateErr = ''TaskFuncImmediateErr''"
    by (simp add: ShortName_def longName_def funcShortName_def LastIndex_def
        TaskFuncImmediateErr_def)
  show ?thesis
    using run_return_wraps [OF h1, of 0] run_return_wraps [OF h0, of 0] h1 h0 n by simp
qed

text \<open>
  Claim C2 as stated fails: the function of the test suite that returns
  \<^verbatim>\<open>immediate error\<close> does not leave that error as the result of its task.
\<close>

theorem run_return_verbatim_counterexample:
  "call TaskFuncImmediateErr = Return (Some (Errorf ''immediate error'' []))
   \<and> Err (fst (run 0 (newTask TaskFuncImmediateErr))) \<noteq> Some (Errorf ''immediate error'' [])"
  by (simp add: run_unfold call_def TaskFuncImmediateErr_def)

text \<open>
  A panic with a payload other than \<^verbatim>\<open>nil\<close> becomes a non-nil result that carries the
  short name: built around the payload with \<^verbatim>\<open>%w\<close> when it is an error, and holding
  its text otherwise.
\<close>

lemma run_panic_caught:
  assumes "call f = Panic v" and "v \<noteq> VNil"
  shows "Err (fst (run a (newTask f))) =
           (case v of
              VError e \<Rightarrow> Some (Errorf ''task %q panicked with error: %w''
                                 [ArgString (ShortName f), ArgError e])
            | VOther x \<Rightarrow> Some (Errorf ''task %q panicked with non-error value %#v''
                                 [ArgString (ShortName f), ArgValue x])
            | VNil \<Rightarrow> None)
       \<and> Err (fst (run a (newTask f))) \<noteq> None
       \<and> doneClosed (fst (run a (newTask f)))"
  using assms by (cases v) (simp_all add: run_unfold)

lemma run_panic_text:
  \<open>Err (fst (run 0 (newTask TaskFuncPanicText))) =
     Some (Errorf ''task %q panicked with non-error value %#v''
             [ArgString ''PanicText'', ArgValue ''"timed out"''])\<close>
  by (simp add: run_unfold call_def TaskFuncPanicText_def
      ShortName_def longName_def funcShortName_def LastIndex_def)

text \<open>
  Claim C3 at the input where the code departs from it: a task function whose body is
  \<^verbatim>\<open>panic(nil)\<close>. \<^verbatim>\<open>finalize\<close> reads \<^verbatim>\<open>nil\<close> from \<^verbatim>\<open>recover()\<close>, writes no error and closes the
  channel: the result is \<^verbatim>\<open>nil\<close>, as for a function that succeeded, and a waiter gets
  \<^verbatim>\<open>nil\<close>.
\<close>

theorem run_panic_nil_vanishes:
  "call TaskFuncPanicNil = Panic VNil
   \<and> Err (fst (run 0 (newTask TaskFuncPanicNil))) = None
   \<and> doneClosed (fst (run 0 (newTask TaskFuncPanicNil)))
   \<and> snd (run 0 (newTask TaskFuncPanicNil)) = [Call 0, Close 0]
   \<and> fst (Wait TaskFuncPanicNil init) = Return None"
  by (simp add: run_unfold call_def TaskFuncPanicNil_def Wait_def Task_def init_def id'_def
      waitFor_def settle_def sched_def)

section \<open>One execution of a task\<close>

lemma run_events_cases:
  "e \<in> set (snd (run a t)) \<Longrightarrow> e = Call a \<or> (\<exists>v. e = SetErr a v) \<or> e = Close a"
  by (cases "call (func t)")
     (auto simp: run_def finalize_def setErr_def closeDone_def Let_def split: option.splits val.splits)

lemma run_shape:
  "call (func t) \<noteq> Block \<Longrightarrow> t = newTask f \<Longrightarrow>
   closes (snd (run a t)) = 1 \<and> last (snd (run a t)) = Close a \<and> writes (snd (run a t)) \<le> 2
   \<and> doneClosed (fst (run a t))"
  by (cases "call f"; cases "recover (call f)")
     (auto simp: run_unfold writes_def closes_def split: option.splits)

lemma run_writes:
  "t = newTask f \<Longrightarrow>
   (case call f of
      Return None \<Rightarrow> writes (snd (run a t)) = 1
    | Return (Some e) \<Rightarrow> writes (snd (run a t)) = 2
    | Panic (VError e) \<Rightarrow> writes (snd (run a t)) = 1
    | Panic (VOther x) \<Rightarrow> writes (snd (run a t)) = 1
    | _ \<Rightarrow> True)"
  by (auto simp: run_unfold writes_def split: option.splits outcome.splits val.splits)

lemma started_not_waiting:
  "group_inv s \<Longrightarrow> Call a \<in> set (events s) \<Longrightarrow> a \<notin> set (goroutines s)"
  unfolding group_inv_def by (metis count_list_0_iff)

lemma started_allocated:
  "group_inv s \<Longrightarrow> Call a \<in> set (events s) \<Longrightarrow> a < length (heap s)"
proof -
  assume inv: "group_inv s" and c: "Call a \<in> set (events s)"
  have "count_list (events s) (Call a) \<le> (if a < length (heap s) then 1 else 0)"
    using inv unfolding group_inv_def by blast
  moreover have "count_list (events s) (Call a) \<noteq> 0"
    using c by (simp add: count_list_0_iff)
  ultimately show ?thesis by (simp split: if_splits)
qed

lemma after_start_Task:
  assumes "a < length (heap s)"
  shows "heap (snd (Task s f)) ! a = heap s ! a
       \<and> (\<exists>more. events (snd (Task s f)) = events s @ more \<and> list_all (untouched a) more)"
proof (cases "tasks s (id' f)")
  case (Some b)
  then show ?thesis by (simp add: Task_existing)
next
  case None
  show ?thesis
    unfolding Task_created[OF None]
    using assms by (simp add: nth_append untouched_def)
qed

lemma after_start_sched:
  assumes "a \<notin> set (goroutines s)"
  shows "heap (sched s b) ! a = heap s ! a
       \<and> (\<exists>more. events (sched s b) = events s @ more \<and> list_all (untouched a) more)"
proof (cases "b \<in> set (goroutines s) \<and> b < length (heap s)")
  case False
  then show ?thesis by (simp add: sched_idle)
next
  case True
  then have bg: "b \<in> set (goroutines s)" and bl: "b < length (heap s)" by simp_all
  have ne: "b \<noteq> a" using assms bg by blast
  have "untouched a e" if "e \<in> set (snd (run b (heap s ! b)))" for e
    using run_events_cases[OF that] ne by (auto simp: untouched_def)
  then have "list_all (untouched a) (snd (run b (heap s ! b)))"
    by (simp add: list_all_iff)
  then show ?thesis
    unfolding sched_started[OF bg bl] using ne by simp
qed

lemma events_Task_prefix: "\<exists>more. events (snd (Task s f)) = events s @ more"
  by (cases "tasks s (id' f)") (auto simp: Task_existing Task_created)

lemma events_sched_prefix: "\<exists>more. events (sched s b) = events s @ more"
  by (cases "b \<in> set (goroutines s) \<and> b < length (heap s)")
     (auto simp: sched_idle sched_started)

lemma heap_length_Task: "length (heap s) \<le> length (heap (snd (Task s f)))"
  by (cases "tasks s (id' f)") (auto simp: Task_existing Task_created)

lemma heap_length_sched: "length (heap (sched s b)) = length (heap s)"
  by (cases "b \<in> set (goroutines s) \<and> b < length (heap s)")
     (auto simp: sched_idle sched_started)

lemma after_start_exec:
  assumes "group_inv s" and "Call a \<in> set (events s)"
  shows "heap (exec s acts) ! a = heap s ! a
       \<and> (\<exists>more. events (exec s acts) = events s @ more \<and> list_all (untouched a) more)"
  using assms
proof (induction acts arbitrary: s)
  case Nil
  then show ?case by simp
next
  case (Cons act acts)
  define s' where "s' = (case act of ATask f \<Rightarrow> snd (Task s f) | ASched b \<Rightarrow> sched s b)"
  have ex: "exec s (act # acts) = exec s' acts"
    by (cases act) (simp_all add: s'_def)
  have inv': "group_inv s'"
    using Cons.prems(1) by (cases act) (simp_all add: s'_def group_inv_Task group_inv_sched)
  have step: "heap s' ! a = heap s ! a
       \<and> (\<exists>more. events s' = events s @ more \<and> list_all (untouched a) more)"
  proof (cases act)
    case (ATask f)
    then show ?thesis
      using after_start_Task[OF started_allocated[OF Cons.prems]] by (simp add: s'_def)
  next
    case (ASched b)
    then show ?thesis
      using after_start_sched[OF started_not_waiting[OF Cons.prems]] by (simp add: s'_def)
  qed
  then obtain m1 where m1: "events s' = events s @ m1" "list_all (untouched a) m1"
    and h1: "heap s' ! a = heap s ! a" by blast
  have "Call a \<in> set (events s')" using m1(1) Cons.prems(2) by simp
  from Cons.IH[OF inv' this] obtain m2
    where m2: "events (exec s' acts) = events s' @ m2" "list_all (untouched a) m2"
      and h2: "heap (exec s' acts) ! a = heap s' ! a" by blast
  have "events (exec s' acts) = events s @ (m1 @ m2)" "list_all (untouched a) (m1 @ m2)"
    using m1 m2 by simp_all
  then show ?case using h1 h2 ex by (metis)
qed

text \<open>
  Claim C4, as amended. Take a reachable state \<open>s\<close> in which the goroutine of the task
  at \<open>a\<close> waits to start, and a task function that returns or panics. The effects \<open>evs\<close>
  of its \<^verbatim>\<open>run\<close> hold exactly one close of the completion channel, which is the last
  effect, after at most two writes to the result: one when the function returns \<^verbatim>\<open>nil\<close>
  or panics with an error or another non-nil value, two when it returns a non-nil error
  (the error, then the error built around it). From then on, whatever the group does
  \<open>later\<close>, the task object stays as it is and no effect calls the function, writes the
  result or closes the channel again.
\<close>

theorem task_execution_effects:
  assumes "s = exec init acts" and "a \<in> set (goroutines s)"
    and "call (func (heap s ! a)) \<noteq> Block"
    and "evs = drop (length (events s)) (events (sched s a))"
  shows "closes evs = 1 \<and> last evs = Close a \<and> writes evs \<le> 2
       \<and> (case call (func (heap s ! a)) of
            Return None \<Rightarrow> writes evs = 1
          | Return (Some e) \<Rightarrow> writes evs = 2
          | Panic (VError e) \<Rightarrow> writes evs = 1
          | Panic (VOther x) \<Rightarrow> writes evs = 1
          | _ \<Rightarrow> True)
       \<and> doneClosed (heap (sched s a) ! a)
       \<and> heap (exec (sched s a) later) ! a = heap (sched s a) ! a
       \<and> list_all (untouched a) (drop (length (events (sched s a))) (events (exec (sched s a) later)))"
proof -
  have inv: "group_inv s"
    using assms(1) by (simp add: group_inv_exec group_inv_init)
  have al: "a < length (heap s)" and fresh: "heap s ! a = newTask (func (heap s ! a))"
    using inv assms(2) unfolding group_inv_def by blast+
  let ?t = "heap s ! a"
  have sch: "sched s a = s\<lparr>heap := (heap s)[a := fst (run a ?t)],
                 goroutines := remove1 a (goroutines s),
                 events := events s @ snd (run a ?t)\<rparr>"
    by (rule sched_started[OF assms(2) al])
  have evs: "evs = snd (run a ?t)"
    using assms(4) by (simp add: sch)
  have hd: "heap (sched s a) ! a = fst (run a ?t)"
    using al by (simp add: sch)
  have shape: "closes evs = 1 \<and> last evs = Close a \<and> writes evs \<le> 2 \<and> doneClosed (fst (run a ?t))"
    unfolding evs by (rule run_shape[OF assms(3) fresh])
  have wr: "(case call (func ?t) of
            Return None \<Rightarrow> writes evs = 1
          | Return (Some e) \<Rightarrow> writes evs = 2
          | Panic (VError e) \<Rightarrow> writes evs = 1
          | Panic (VOther x) \<Rightarrow> writes evs = 1
          | _ \<Rightarrow> True)"
    unfolding evs by (rule run_writes[OF fresh])
  have inv': "group_inv (sched s a)" by (rule group_inv_sched[OF inv])
  have "count_list (snd (run a ?t)) (Call a) = 1" by (simp add: run_count_Call)
  then have "Call a \<in> set (snd (run a ?t))"
    by (metis count_list_0_iff zero_neq_one)
  then have started: "Call a \<in> set (events (sched s a))" by (simp add: sch)
  from after_start_exec[OF inv' started, of later] obtain m
    where m: "events (exec (sched s a) later) = events (sched s a) @ m" "list_all (untouched a) m"
      and h: "heap (exec (sched s a) later) ! a = heap (sched s a) ! a" by blast
  have "drop (length (events (sched s a))) (events (exec (sched s a) later)) = m"
    using m(1) by simp
  then show ?thesis using shape wr hd h m(2) by simp
qed

theorem task_execution_effects_witness:
  "0 \<in> set (goroutines (exec init [ATask TaskFuncImmediateErr]))
   \<and> call (func (heap (exec init [ATask TaskFuncImmediateErr]) ! 0)) \<noteq> Block
   \<and> closes (drop (length (events (exec init [ATask TaskFuncImmediateErr])))
                (events (sched (exec init [ATask TaskFuncImmediateErr]) 0))) = 1
   \<and> writes (drop (length (events (exec init [ATask TaskFuncImmediateErr])))
                (events (sched (exec init [ATask TaskFuncImmediateErr]) 0))) = 2
   \<and> doneClosed (heap (sched (exec init [ATask TaskFuncImmediateErr]) 0) ! 0)
   \<and> heap (exec (sched (exec init [ATask TaskFuncImmediateErr]) 0)
              [ASched 0, ATask TaskFuncImmediateErr]) ! 0
       = heap (sched (exec init [ATask TaskFuncImmediateErr]) 0) ! 0"
proof -
  have s0: "exec init [ATask TaskFuncImmediateErr] =
      \<lparr>tasks = [3 \<mapsto> 0], heap = [newTask TaskFuncImmediateErr], goroutines = [0],
       events = [Store 3 0, Go 0], logOutput = []\<rparr>"
    by (simp add: Task_def init_def id'_def TaskFuncImmediateErr_def)
  have h2: "0 \<in> set (goroutines (exec init [ATask TaskFuncImmediateErr]))"
    unfolding s0 by simp
  have c: "call (func (heap (exec init [ATask TaskFuncImmediateErr]) ! 0))
             = Return (Some (Errorf ''immediate error'' []))"
    unfolding s0 by (simp add: newTask_def call_def TaskFuncImmediateErr_def)
  have h3: "call (func (heap (exec init [ATask TaskFuncImmediateErr]) ! 0)) \<noteq> Block"
    unfolding c by simp
  show ?thesis
    using task_execution_effects [OF refl h2 h3 refl, of "[ASched 0, ATask TaskFuncImmediateErr]"]
      h2 h3
    unfolding c by simp
qed

text \<open>
  Claim C4 as stated fails: when the function returns a non-nil error, \<^verbatim>\<open>run\<close> writes
  the result twice before it closes the channel.
\<close>

theorem run_two_writes_counterexample:
  "snd (run 0 (newTask TaskFuncImmediateErr)) =
     [Call 0,
      SetErr 0 (Some (Errorf ''immediate error'' [])),
      SetErr 0 (Some (Errorf ''task %q finished with error: %w''
                        [ArgString ''TaskFuncImmediateErr'', ArgError (Errorf ''immediate error'' [])])),
      Close 0]
   \<and> writes (snd (run 0 (newTask TaskFuncImmediateErr))) = 2"
  by (simp add: run_unfold writes_def call_def TaskFuncImmediateErr_def
      ShortName_def longName_def funcShortName_def LastIndex_def)

section \<open>Selection by name\<close>

lemmas name_unfold = ShortName_def longName_def funcShortName_def LastIndex_def
lemmas choose_unfold = Choose_def dedup_def add_def hasTaskName_def equalTaskName_def
  EqualFold_def foldChar_def equalTask_def equal_def id'_def shortNames_def Let_def

text \<open>
  Claim C9 at inputs where the code departs from it. With the four task functions of
  the site example and the names \<^verbatim>\<open>build\<close> and \<^verbatim>\<open>styles\<close>, the error of \<^verbatim>\<open>Choose\<close> lists the
  two chosen names and not the four known ones; with a function given twice, the error
  lists no known name at all.
\<close>

theorem Choose_too_many_lists_chosen:
  "Choose [''build'', ''styles''] [site_build, site_templates, site_templatesW, site_styles]
     = Inl (Errorf ''too many tasks specified, please choose one (case-insensitive): %q''
              [ArgStrings [''build'', ''styles'']])
   \<and> shortNames [site_build, site_templates, site_templatesW, site_styles]
     = [''build'', ''templates'', ''templatesW'', ''styles'']
   \<and> Choose [''build''] [site_build, site_styles, site_build]
     = Inl (Errorf ''unexpected task function with duplicate name %q'' [ArgString ''build''])"
  by (simp add: choose_unfold name_unfold site_build_def site_templates_def site_templatesW_def
      site_styles_def)

lemma byTaskName_found:
  "byTaskName self nm \<noteq> None \<Longrightarrow> byTaskName self nm \<in> set self \<and> equalTaskName (byTaskName self nm) nm"
  by (induction self) auto

lemma hasTaskName_iff:
  "None \<notin> set self \<Longrightarrow> hasTaskName self nm \<longleftrightarrow> (\<exists>g \<in> set self. equalTaskName g nm)"
proof (induction self)
  case Nil
  then show ?case by (simp add: hasTaskName_def)
next
  case (Cons v self)
  have v: "v \<noteq> None"
    using Cons.prems by (metis list.set_intros(1))
  have "None \<notin> set self"
    using Cons.prems by (metis list.set_intros(2))
  then have ih: "hasTaskName self nm \<longleftrightarrow> (\<exists>g \<in> set self. equalTaskName g nm)"
    by (rule Cons.IH)
  show ?case
  proof (cases "equalTaskName v nm")
    case True
    then show ?thesis using v by (simp add: hasTaskName_def)
  next
    case False
    then show ?thesis using ih by (simp add: hasTaskName_def)
  qed
qed

lemma hasTask_iff: "hasTask self v \<longleftrightarrow> (\<exists>x \<in> set self. equalTask x v)"
  by (induction self) auto

lemma add_accepts:
  assumes "add self v = (None, self')" and "well_named self"
  shows "self' = self @ [v] \<and> well_named self'"
proof -
  from assms(1) have nn: "v \<noteq> None" and nm: "ShortName v \<noteq> []"
    and hn: "\<not> hasTaskName self (ShortName v)" and ht: "\<not> hasTask self v"
    and eq: "self' = self @ [v]"
    by (auto simp: add_def Let_def split: if_splits)
  have none: "None \<notin> set self" using assms(2) by (simp add: well_named_def)
  have a: "\<forall>g \<in> set self. \<not> equalTaskName g (ShortName v)"
    using hn hasTaskName_iff[OF none] by simp
  have b: "\<forall>g \<in> set self. id' g \<noteq> id' v"
    using ht by (auto simp: hasTask_iff equalTask_def equal_def)
  have c: "\<forall>g \<in> set self. map foldChar (ShortName g) \<noteq> map foldChar (ShortName v)"
    using a by (auto simp: equalTaskName_def EqualFold_def)
  have "well_named (self @ [v])"
    using assms(2) nn nm b c unfolding well_named_def by auto
  then show ?thesis using eq by simp
qed

lemma dedup_loop_accepts:
  "dedup_loop out funs = Inr known \<Longrightarrow> well_named out \<Longrightarrow> known = out @ funs \<and> well_named known"
proof (induction funs arbitrary: out)
  case Nil
  then show ?case by simp
next
  case (Cons f funs)
  obtain e out' where a: "add out f = (e, out')" by (cases "add out f")
  with Cons.prems(1) have e: "e = None" and rest: "dedup_loop out' funs = Inr known"
    by (auto split: option.splits)
  from add_accepts[OF a[unfolded e] Cons.prems(2)]
  have o: "out' = out @ [f]" and w: "well_named out'" by blast+
  from Cons.IH[OF rest w] have "known = out' @ funs" and wk: "well_named known" by blast+
  then have "known = out @ f # funs" using o by simp
  then show ?case using wk by blast
qed

lemma choose_loop_accepts:
  "choose_loop known chosen names = Inr chosen' \<Longrightarrow>
   chosen' = chosen @ map (byTaskName known) names
   \<and> (\<forall>nm \<in> set names. byTaskName known nm \<noteq> None)"
proof (induction names arbitrary: chosen)
  case Nil
  then show ?case by simp
next
  case (Cons nm names)
  let ?f = "byTaskName known nm"
  from Cons.prems have fn: "?f \<noteq> None"
    by (auto simp: Let_def split: if_splits)
  obtain e c1 where a: "add chosen ?f = (e, c1)" by (cases "add chosen ?f")
  with Cons.prems fn have e: "e = None" and rest: "choose_loop known c1 names = Inr chosen'"
    by (auto simp: Let_def split: option.splits if_splits)
  have c1: "c1 = chosen @ [?f]"
    using a e by (auto simp: add_def Let_def split: if_splits)
  from Cons.IH[OF rest] show ?case using fn c1 by simp
qed

lemma well_named_empty: "well_named []"
  by (simp add: well_named_def)

text \<open>
  For names and function names of ASCII characters: when \<^verbatim>\<open>Choose\<close> returns a function,
  the candidates are well named, exactly one name was given, and the function is the
  candidate whose short name matches it, letter case aside. In every other case it
  returns an error.
\<close>

lemma Choose_selects:
  assumes sel: "Choose names funs = Inr f"
    and "list_all ascii names" and "list_all ascii (map longName funs)"
  shows "well_named funs \<and> f \<noteq> None \<and> f \<in> set funs
       \<and> (\<exists>nm. names = [nm] \<and> EqualFold nm (ShortName f))"
proof -
  from sel obtain known where d: "dedup funs = Inr known"
    by (auto simp: Choose_def split: sum.splits)
  from sel d obtain chosen where c: "choose_loop known [] names = Inr chosen"
    by (auto simp: Choose_def split: sum.splits)
  from sel d c have "chosen \<noteq> []" and "\<not> 1 < length chosen" and f: "f = chosen ! 0"
    by (auto simp: Choose_def split: if_splits)
  then have len: "length chosen = 1"
    by (cases chosen) auto
  from dedup_loop_accepts[OF d[unfolded dedup_def] well_named_empty]
  have k: "known = funs" and w: "well_named funs" by auto
  from choose_loop_accepts[OF c]
  have ch: "chosen = map (byTaskName known) names"
    and fnd: "\<forall>nm \<in> set names. byTaskName known nm \<noteq> None" by auto
  from len ch obtain nm where nm: "names = [nm]"
    by (cases names) auto
  have f': "f = byTaskName funs nm" using f ch nm k by simp
  have fn: "byTaskName funs nm \<noteq> None" using fnd nm k by simp
  from byTaskName_found[OF fn]
  have "f \<in> set funs" and "EqualFold nm (ShortName f)"
    unfolding f' by (simp_all add: equalTaskName_def)
  moreover have "f \<noteq> None" using fn f' by simp
  ultimately show ?thesis using w nm by blast
qed

section \<open>The slices of the wait group\<close>

lemma shift_out_eq:
  assumes "i < length xs"
  shows "shift_out xs i = take i xs @ drop (Suc i) xs"
proof -
  let ?m = "min (length (drop i xs)) (length (drop (i + 1) xs))"
  have m: "?m = length xs - Suc i" by simp
  have cp: "copy (drop i xs) (drop (i + 1) xs) = drop (Suc i) xs @ drop ?m (drop i xs)"
    unfolding copy_def Let_def by (simp only: m) simp
  have len: "length (take i xs @ drop (Suc i) xs) = length xs - 1"
    using assms by simp
  have "shift_out xs i =
      take (length xs - 1) ((take i xs @ drop (Suc i) xs) @ drop ?m (drop i xs))"
    unfolding shift_out_def cp by simp
  also have "\<dots> = take i xs @ drop (Suc i) xs"
    using len by (metis append_eq_conv_conj)
  finally show ?thesis .
qed

lemma paired_make: "paired (makeWaitGroup n)"
  by (simp add: paired_def makeWaitGroup_def)

lemma paired_add: "paired wg \<Longrightarrow> paired (wg_add wg t)"
  by (simp add: paired_def wg_add_def)

lemma remove_in_range:
  assumes "paired wg" and "0 \<le> index" and "index < int (length (wtasks wg))"
  shows "wg_remove wg index =
     (Some (wtasks wg ! nat index),
      wg\<lparr>wtasks := take (nat index) (wtasks wg) @ drop (Suc (nat index)) (wtasks wg),
         wcases := take (nat index) (wcases wg) @ drop (Suc (nat index)) (wcases wg)\<rparr>)"
proof -
  have len: "length (wcases wg) = length (wtasks wg)"
    using assms(1) by (simp add: paired_def)
  have i: "nat index < length (wtasks wg)" using assms(2,3) by linarith
  show ?thesis
    using assms(2,3) i len by (simp add: wg_remove_def Let_def shift_out_eq)
qed

lemma remove_out_of_range:
  "index < 0 \<or> int (length (wtasks wg)) \<le> index \<Longrightarrow> wg_remove wg index = (None, wg)"
  by (simp add: wg_remove_def)

lemma paired_remove: "paired wg \<Longrightarrow> paired (snd (wg_remove wg index))"
proof (cases "0 \<le> index \<and> index < int (length (wtasks wg))")
  case True
  assume p: "paired wg"
  show ?thesis
    using remove_in_range[OF p] True p
    by (simp add: paired_def take_map drop_map)
next
  case False
  assume "paired wg"
  then show ?thesis using False remove_out_of_range[of index wg] by auto
qed

lemma paired_run: "paired wg \<Longrightarrow> paired (wg_run wg ops)"
proof (induction ops arbitrary: wg)
  case Nil
  then show ?case by simp
next
  case (Cons op ops)
  then show ?case by (cases op) (simp_all add: paired_add paired_remove)
qed

text \<open>
  Claim C10. After any sequence of \<^verbatim>\<open>add\<close> and \<^verbatim>\<open>remove\<close> on a wait group made by
  \<^verbatim>\<open>makeWaitGroup\<close>, the two slices have the same length, the case at each index is the
  receive case on the completion channel of the task at that index, and \<^verbatim>\<open>remove\<close> at an
  index inside the slices returns the task there and leaves both slices without the
  entry at that index, the others in their order.
\<close>

theorem waitGroup_slices_parallel:
  assumes "wg = wg_run (makeWaitGroup n) ops"
  shows "length (wtasks wg) = length (wcases wg)
       \<and> (\<forall>i < length (wtasks wg). wcases wg ! i = \<lparr>Dir = SelectRecv, Chan = Done (wtasks wg ! i)\<rparr>)
       \<and> (\<forall>index. 0 \<le> index \<and> index < int (length (wtasks wg)) \<longrightarrow>
            wg_remove wg index =
              (Some (wtasks wg ! nat index),
               \<lparr>wtasks = take (nat index) (wtasks wg) @ drop (Suc (nat index)) (wtasks wg),
                wcases = take (nat index) (wcases wg) @ drop (Suc (nat index)) (wcases wg)\<rparr>))"
proof -
  have p: "paired wg" using assms by (simp add: paired_run paired_make)
  have "length (wtasks wg) = length (wcases wg)"
    using p by (simp add: paired_def)
  moreover have "\<forall>i < length (wtasks wg). wcases wg ! i = \<lparr>Dir = SelectRecv, Chan = Done (wtasks wg ! i)\<rparr>"
    using p by (simp add: paired_def)
  moreover have "wg_remove wg index =
              (Some (wtasks wg ! nat index),
               \<lparr>wtasks = take (nat index) (wtasks wg) @ drop (Suc (nat index)) (wtasks wg),
                wcases = take (nat index) (wcases wg) @ drop (Suc (nat index)) (wcases wg)\<rparr>)"
    if "0 \<le> index \<and> index < int (length (wtasks wg))" for index
    using remove_in_range[OF p, of index] that by simp
  ultimately show ?thesis by blast
qed

theorem waitGroup_slices_parallel_witness:
  "wg_run (makeWaitGroup 3) [OpAdd 5, OpAdd 6, OpAdd 7, OpRemove 0, OpAdd 8]
     = \<lparr>wtasks = [6, 7, 8],
        wcases = [\<lparr>Dir = SelectRecv, Chan = Done 6\<rparr>, \<lparr>Dir = SelectRecv, Chan = Done 7\<rparr>,
                  \<lparr>Dir = SelectRecv, Chan = Done 8\<rparr>]\<rparr>
   \<and> wg_remove (wg_run (makeWaitGroup 3) [OpAdd 5, OpAdd 6, OpAdd 7, OpRemove 0, OpAdd 8]) 1
     = (Some 7,
        \<lparr>wtasks = [6, 8],
         wcases = [\<lparr>Dir = SelectRecv, Chan = Done 6\<rparr>, \<lparr>Dir = SelectRecv, Chan = Done 8\<rparr>]\<rparr>)"
proof -
  have r: "wg_run (makeWaitGroup 3) [OpAdd 5, OpAdd 6, OpAdd 7, OpRemove 0, OpAdd 8]
     = \<lparr>wtasks = [6, 7, 8],
        wcases = [\<lparr>Dir = SelectRecv, Chan = Done 6\<rparr>, \<lparr>Dir = SelectRecv, Chan = Done 7\<rparr>,
                  \<lparr>Dir = SelectRecv, Chan = Done 8\<rparr>]\<rparr>"
    by (simp add: makeWaitGroup_def wg_add_def wg_remove_def shift_out_def copy_def)
  show ?thesis
    using waitGroup_slices_parallel [OF refl, of 3 "[OpAdd 5, OpAdd 6, OpAdd 7, OpRemove 0, OpAdd 8]"]
    unfolding r by (simp add: r)
qed

section \<open>Waiting: the result of a task as seen from a state\<close>

lemma run_open_same: "\<not> doneClosed (fst (run a t)) \<Longrightarrow> fst (run a t) = t"
  by (cases "call (func t)")
     (auto simp: run_def finalize_def setErr_def closeDone_def Let_def split: option.splits val.splits)

lemma settle_cases:
  "settle s a = s \<or>
   (\<not> doneClosed (heap s ! a) \<and> a \<in> set (goroutines s) \<and> a < length (heap s) \<and>
    settle s a = s\<lparr>heap := (heap s)[a := fst (run a (heap s ! a))],
                   goroutines := remove1 a (goroutines s),
                   events := events s @ snd (run a (heap s ! a))\<rparr>)"
  by (cases "a \<in> set (goroutines s) \<and> a < length (heap s)")
     (auto simp: settle_def sched_idle sched_started)

lemma settle_length: "length (heap (settle s a)) = length (heap s)"
  using settle_cases[of s a] by auto

lemma settle_other: "b \<noteq> a \<Longrightarrow> heap (settle s a) ! b = heap s ! b"
  using settle_cases[of s a] by auto

lemma settle_goroutines_other:
  "b \<noteq> a \<Longrightarrow> b \<in> set (goroutines (settle s a)) \<longleftrightarrow> b \<in> set (goroutines s)"
  using settle_cases[of s a] by auto

lemma settle_tasks: "tasks (settle s a) = tasks s"
  using settle_cases[of s a] by auto

lemma settle_logOutput: "logOutput (settle s a) = logOutput s"
  using settle_cases[of s a] by auto

lemma settle_done_id: "doneClosed (heap s ! a) \<Longrightarrow> settle s a = s"
  by (simp add: settle_def)

lemma settle_keeps_done:
  "b < length (heap s) \<Longrightarrow> doneClosed (heap s ! b) \<Longrightarrow> heap (settle s a) ! b = heap s ! b"
  by (cases "b = a") (simp_all add: settle_done_id settle_other)

lemma settle_self:
  "heap (settle s a) ! a =
     (if \<not> doneClosed (heap s ! a) \<and> a \<in> set (goroutines s) \<and> a < length (heap s)
      then fst (run a (heap s ! a)) else heap s ! a)"
  by (cases "a \<in> set (goroutines s) \<and> a < length (heap s)")
     (auto simp: settle_def sched_idle sched_started)

text \<open>The result a task completes with, read off the state.\<close>

lemma result_at_alt:
  "result_at s a =
     (if doneClosed (heap s ! a) then Some (Err (heap s ! a))
      else if a \<in> set (goroutines s) \<and> a < length (heap s) \<and> doneClosed (fst (run a (heap s ! a)))
      then Some (Err (fst (run a (heap s ! a)))) else None)"
  unfolding result_at_def settle_self by auto

lemma result_at_settle_other:
  assumes "b \<noteq> a"
  shows "result_at (settle s a) b = result_at s b"
  unfolding result_at_alt
  using assms by (simp add: settle_other settle_goroutines_other settle_length)

lemma result_at_settle_self: "result_at (settle s a) a = result_at s a"
proof (cases "settle s a = s")
  case True
  then show ?thesis by simp
next
  case False
  with settle_cases[of s a]
  have nd: "\<not> doneClosed (heap s ! a)" and ag: "a \<in> set (goroutines s)" and al: "a < length (heap s)"
    and st: "settle s a = s\<lparr>heap := (heap s)[a := fst (run a (heap s ! a))],
                   goroutines := remove1 a (goroutines s),
                   events := events s @ snd (run a (heap s ! a))\<rparr>"
    by blast+
  let ?t = "fst (run a (heap s ! a))"
  have h: "heap (settle s a) ! a = ?t" using al by (simp add: st)
  show ?thesis
  proof (cases "doneClosed ?t")
    case True
    then show ?thesis
      unfolding result_at_alt[of "settle s a"] result_at_alt[of s] h
      using nd ag al by simp
  next
    case False
    then have same: "?t = heap s ! a" by (rule run_open_same)
    show ?thesis
      unfolding result_at_alt[of "settle s a"] result_at_alt[of s] h
      using nd ag al False same by simp
  qed
qed

lemma result_at_settle: "result_at (settle s a) b = result_at s b"
  by (cases "b = a") (simp_all add: result_at_settle_self result_at_settle_other)

lemma result_at_done:
  "doneClosed (heap (settle s a) ! a) \<Longrightarrow> result_at s a = Some (Err (heap (settle s a) ! a))"
  by (simp add: result_at_def)

lemma result_at_open:
  "\<not> doneClosed (heap (settle s a) ! a) \<Longrightarrow> result_at s a = None"
  by (simp add: result_at_def)

text \<open>waitFor in terms of the result.\<close>

lemma waitFor_result:
  "a < length (heap s) \<Longrightarrow>
   waitFor s a = ((case result_at s a of Some r \<Rightarrow> Return r | None \<Rightarrow> Block), settle s a)"
  by (simp add: waitFor_def result_at_def Let_def)

section \<open>The loop of \<^verbatim>\<open>waitGroup.wait\<close>\<close>

lemma paired_length: "paired wg \<Longrightarrow> length (wcases wg) = length (wtasks wg)"
  by (simp add: paired_def)

lemma paired_nth:
  "paired wg \<Longrightarrow> i < length (wtasks wg) \<Longrightarrow>
   wcases wg ! i = \<lparr>Dir = SelectRecv, Chan = DoneOf (wtasks wg ! i)\<rparr>"
  by (simp add: paired_def Done_def)

lemma closes_eventually_result:
  "closes_eventually s (DoneOf t) \<longleftrightarrow> t < length (heap s) \<and> result_at s t \<noteq> None"
  by (simp add: closes_eventually_def result_at_def)

lemma ready_paired:
  assumes "paired wg" and "\<forall>t \<in> set (wtasks wg). t < length (heap s)"
  shows "set (ready s (wcases wg)) = {i. i < length (wtasks wg) \<and> result_at s (wtasks wg ! i) \<noteq> None}"
  using assms
  by (auto simp: ready_def paired_length paired_nth closes_eventually_result)

lemma remove_without:
  "paired wg \<Longrightarrow> i < length (wtasks wg) \<Longrightarrow>
   wg_remove wg (int i) = (Some (wtasks wg ! i), without wg i)"
  using remove_in_range[of wg "int i"] by (simp add: without_def)

lemma paired_without: "paired wg \<Longrightarrow> paired (without wg i)"
  by (simp add: paired_def without_def take_map drop_map)

lemma without_length:
  "i < length (wtasks wg) \<Longrightarrow> length (wtasks (without wg i)) < length (wtasks wg)"
  by (simp add: without_def)

lemma without_set:
  "i < length (wtasks wg) \<Longrightarrow>
   set (wtasks wg) = insert (wtasks wg ! i) (set (wtasks (without wg i)))"
proof -
  assume i: "i < length (wtasks wg)"
  have "wtasks wg = take i (wtasks wg) @ wtasks wg ! i # drop (Suc i) (wtasks wg)"
    using i by (simp add: id_take_nth_drop)
  then have "set (wtasks wg) = set (take i (wtasks wg) @ wtasks wg ! i # drop (Suc i) (wtasks wg))"
    by simp
  then show ?thesis by (simp add: without_def)
qed

text \<open>One turn of the loop of wait.\<close>

lemma wg_wait_empty: "wcases wg = [] \<Longrightarrow> wg_wait rs s wg = (Return None, s, wg)"
  by (subst wg_wait.simps) simp

lemma wg_wait_too_many:
  assumes "maxSelectCases < length (wcases wg)"
  shows "wg_wait rs s wg = (Panic tooManyCases, s, wg)"
proof -
  have "wcases wg \<noteq> []" using assms by auto
  then show ?thesis using assms by (subst wg_wait.simps) (simp add: Select_def)
qed

lemma wg_wait_blocked:
  assumes "wcases wg \<noteq> []" and "ready s (wcases wg) = []"
    and "length (wcases wg) \<le> maxSelectCases"
  shows "wg_wait rs s wg = (Block, s, wg)"
  using assms by (subst wg_wait.simps) (simp add: Select_def)

lemma wg_wait_turn:
  assumes p: "paired wg" and v: "\<forall>t \<in> set (wtasks wg). t < length (heap s)"
    and ne: "ready s (wcases wg) \<noteq> []"
    and bd: "length (wtasks wg) \<le> maxSelectCases"
  shows "\<exists>i r. i < length (wtasks wg) \<and> result_at s (wtasks wg ! i) = Some r \<and>
           wg_wait rs s wg =
             (case r of
                Some e \<Rightarrow> (Return (Some e), settle s (wtasks wg ! i), without wg i)
              | None \<Rightarrow> wg_wait (tl rs) (settle s (wtasks wg ! i)) (without wg i))"
proof -
  let ?rdy = "ready s (wcases wg)"
  let ?r = "(case rs of [] \<Rightarrow> 0 | x # _ \<Rightarrow> x)"
  let ?i = "?rdy ! (?r mod length ?rdy)"
  have "?i \<in> set ?rdy" using ne by simp
  then have il: "?i < length (wtasks wg)" and res: "result_at s (wtasks wg ! ?i) \<noteq> None"
    unfolding ready_paired[OF p v] by simp_all
  then obtain r where r: "result_at s (wtasks wg ! ?i) = Some r" by blast
  let ?t = "wtasks wg ! ?i"
  have tl: "?t < length (heap s)" using v il by simp
  have pos: "wcases wg \<noteq> []" using il p by (auto simp: paired_def)
  have bd': "\<not> maxSelectCases < length (wcases wg)"
    using bd p by (simp add: paired_def)
  have sel: "Select rs s (wcases wg) = Inr (Some (int ?i, settle s ?t, tl rs))"
    using ne bd' by (simp add: Select_def Let_def paired_nth[OF p il])
  have dn: "doneClosed (heap (settle s ?t) ! ?t)" and er: "Err (heap (settle s ?t) ! ?t) = r"
    using r by (auto simp: result_at_def split: if_splits)
  have ea: "ErrAt (settle s ?t) ?t = Inr r"
    using tl er by (simp add: ErrAt_def settle_length)
  have "wg_wait rs s wg =
             (case r of
                Some e \<Rightarrow> (Return (Some e), settle s ?t, without wg ?i)
              | None \<Rightarrow> wg_wait (tl rs) (settle s ?t) (without wg ?i))"
    using pos by (subst wg_wait.simps) (simp add: sel remove_without[OF p il] ea split: option.splits)
  then show ?thesis using il r by blast
qed

lemma wg_wait_spec:
  assumes "paired wg" and "\<forall>t \<in> set (wtasks wg). t < length (heap s)"
    and "length (wtasks wg) \<le> maxSelectCases"
  shows "(fst (wg_wait rs s wg) = Return None \<longleftrightarrow> (\<forall>t \<in> set (wtasks wg). result_at s t = Some None))
       \<and> (\<forall>e. fst (wg_wait rs s wg) = Return (Some e) \<longrightarrow>
             (\<exists>t \<in> set (wtasks wg). result_at s t = Some (Some e)))
       \<and> ((\<exists>t \<in> set (wtasks wg). \<exists>e. result_at s t = Some (Some e)) \<longrightarrow>
             (\<exists>e. fst (wg_wait rs s wg) = Return (Some e)))
       \<and> (\<forall>v. fst (wg_wait rs s wg) \<noteq> Panic v)
       \<and> (fst (wg_wait rs s wg) = Return None \<longrightarrow> wtasks (snd (snd (wg_wait rs s wg))) = []
             \<and> wcases (snd (snd (wg_wait rs s wg))) = [])"
  using assms
proof (induction "length (wtasks wg)" arbitrary: rs s wg rule: less_induct)
  case less
  note p = less.prems(1) and v = less.prems(2) and bd = less.prems(3)
  have bdc: "length (wcases wg) \<le> maxSelectCases"
    using bd p by (simp add: paired_def)
  show ?case
  proof (cases "wtasks wg = []")
    case True
    then have "wcases wg = []" using p by (simp add: paired_def)
    then show ?thesis using True by (simp add: wg_wait_empty)
  next
    case False
    then have pos: "wcases wg \<noteq> []" using p by (auto simp: paired_def)
    show ?thesis
    proof (cases "ready s (wcases wg) = []")
      case True
      then have none: "\<forall>t \<in> set (wtasks wg). result_at s t = None"
        using ready_paired[OF p v] by (auto simp: in_set_conv_nth)
      obtain t0 where "t0 \<in> set (wtasks wg)" using False by (cases "wtasks wg") auto
      with none have "\<exists>t \<in> set (wtasks wg). result_at s t \<noteq> Some None" by force
      then show ?thesis
        using none by (auto simp: wg_wait_blocked[OF pos True bdc])
    next
      case ne: False
      from wg_wait_turn[OF p v ne bd, of rs] obtain i r
        where il: "i < length (wtasks wg)" and r: "result_at s (wtasks wg ! i) = Some r"
          and w: "wg_wait rs s wg =
             (case r of
                Some e \<Rightarrow> (Return (Some e), settle s (wtasks wg ! i), without wg i)
              | None \<Rightarrow> wg_wait (tl rs) (settle s (wtasks wg ! i)) (without wg i))"
        by blast
      let ?t = "wtasks wg ! i"
      have tin: "?t \<in> set (wtasks wg)" using il by simp
      show ?thesis
      proof (cases r)
        case (Some e)
        then have w': "wg_wait rs s wg = (Return (Some e), settle s ?t, without wg i)"
          using w by simp
        have "\<exists>t \<in> set (wtasks wg). result_at s t \<noteq> Some None"
          using tin r Some by force
        then show ?thesis
          using tin r Some by (auto simp: w')
      next
        case None
        let ?s1 = "settle s ?t" and ?wg1 = "without wg i"
        have w': "wg_wait rs s wg = wg_wait (tl rs) ?s1 ?wg1" using w None by simp
        have st: "set (wtasks wg) = insert ?t (set (wtasks ?wg1))" by (rule without_set[OF il])
        have v1: "\<forall>t \<in> set (wtasks ?wg1). t < length (heap ?s1)"
          using v st by (simp add: settle_length)
        have ih: "(fst (wg_wait (tl rs) ?s1 ?wg1) = Return None \<longleftrightarrow>
                     (\<forall>t \<in> set (wtasks ?wg1). result_at ?s1 t = Some None))
       \<and> (\<forall>e. fst (wg_wait (tl rs) ?s1 ?wg1) = Return (Some e) \<longrightarrow>
             (\<exists>t \<in> set (wtasks ?wg1). result_at ?s1 t = Some (Some e)))
       \<and> ((\<exists>t \<in> set (wtasks ?wg1). \<exists>e. result_at ?s1 t = Some (Some e)) \<longrightarrow>
             (\<exists>e. fst (wg_wait (tl rs) ?s1 ?wg1) = Return (Some e)))
       \<and> (\<forall>v. fst (wg_wait (tl rs) ?s1 ?wg1) \<noteq> Panic v)
       \<and> (fst (wg_wait (tl rs) ?s1 ?wg1) = Return None \<longrightarrow>
             wtasks (snd (snd (wg_wait (tl rs) ?s1 ?wg1))) = []
             \<and> wcases (snd (snd (wg_wait (tl rs) ?s1 ?wg1))) = [])"
          using without_length[OF il] bd
          by (intro less.hyps[OF without_length[OF il] paired_without[OF p] v1]) simp
        have rt: "result_at s ?t = Some None" using r None by simp
        show ?thesis
          unfolding w' st using ih rt by (simp add: result_at_settle)
      qed
    qed
  qed
qed

section \<open>\<^verbatim>\<open>Wait\<close>\<close>

lemma Task_heap_old:
  "b < length (heap s) \<Longrightarrow> heap (snd (Task s f)) ! b = heap s ! b"
  by (cases "tasks s (id' f)") (auto simp: Task_existing Task_created nth_append)

lemma Task_valid:
  assumes "group_inv s"
  shows "fst (Task s f) < length (heap (snd (Task s f)))"
proof -
  have inv: "group_inv (snd (Task s f))" by (rule group_inv_Task[OF assms])
  have "tasks (snd (Task s f)) (id' f) = Some (fst (Task s f))"
    by (rule Task_registers) simp
  then show ?thesis using inv unfolding group_inv_def by blast
qed

lemma Wait_result:
  assumes "group_inv s"
  shows "Wait f s =
     ((case result_at (snd (Task s f)) (fst (Task s f)) of Some r \<Rightarrow> Return r | None \<Rightarrow> Block),
      settle (snd (Task s f)) (fst (Task s f)))"
  unfolding Wait_def Let_def by (rule waitFor_result[OF Task_valid[OF assms]])

lemma Wait_returned:
  assumes "Wait f s = (Return r, s1)"
  shows "\<exists>t. tasks s1 (id' f) = Some t \<and> t < length (heap s1) \<and> doneClosed (heap s1 ! t)
             \<and> Err (heap s1 ! t) = r"
proof -
  let ?t = "fst (Task s f)" and ?s0 = "snd (Task s f)"
  have w: "waitFor ?s0 ?t = (Return r, s1)" using assms by (simp add: Wait_def Let_def)
  have tl: "?t < length (heap ?s0)"
    using w by (auto simp: waitFor_def split: if_splits)
  from w tl have s1: "s1 = settle ?s0 ?t" and dn: "doneClosed (heap (settle ?s0 ?t) ! ?t)"
    and er: "Err (heap (settle ?s0 ?t) ! ?t) = r"
    by (auto simp: waitFor_def Let_def split: if_splits)
  have "tasks ?s0 (id' f) = Some ?t" by (rule Task_registers) simp
  then have "tasks s1 (id' f) = Some ?t" by (simp add: s1 settle_tasks)
  then show ?thesis using tl dn er by (auto simp: s1 settle_length)
qed

lemma Wait_again:
  assumes "tasks s (id' f) = Some t" and "t < length (heap s)" and "doneClosed (heap s ! t)"
  shows "Wait f s = (Return (Err (heap s ! t)), s)"
  using assms by (simp add: Wait_def Task_existing waitFor_def settle_done_id Let_def)

lemma Wait_keeps:
  assumes "tasks s k = Some t" and "t < length (heap s)" and "doneClosed (heap s ! t)"
  shows "tasks (snd (Wait g s)) k = Some t \<and> t < length (heap (snd (Wait g s)))
       \<and> heap (snd (Wait g s)) ! t = heap s ! t"
proof -
  let ?u = "fst (Task s g)" and ?s0 = "snd (Task s g)"
  have k0: "tasks ?s0 k = Some t" by (rule tasks_Task_mono[OF assms(1)])
  have l0: "t < length (heap ?s0)" using assms(2) heap_length_Task[of s g] by simp
  have h0: "heap ?s0 ! t = heap s ! t" by (rule Task_heap_old[OF assms(2)])
  have sn: "snd (Wait g s) = ?s0 \<or> snd (Wait g s) = settle ?s0 ?u"
    by (auto simp: Wait_def waitFor_def Let_def)
  have "tasks (settle ?s0 ?u) k = Some t" using k0 by (simp add: settle_tasks)
  moreover have "t < length (heap (settle ?s0 ?u))" using l0 by (simp add: settle_length)
  moreover have "heap (settle ?s0 ?u) ! t = heap s ! t"
    using settle_keeps_done[OF l0, of ?u] assms(3) h0 by simp
  ultimately show ?thesis using sn k0 l0 h0 by auto
qed

lemma Wait_fresh:
  assumes "tasks s (id' f) = None" and "call f \<noteq> Block"
  shows "Wait f s =
     (Return (Err (fst (run (length (heap s)) (newTask f)))),
      s\<lparr>heap := heap s @ [fst (run (length (heap s)) (newTask f))],
        tasks := (tasks s)(id' f \<mapsto> length (heap s)),
        goroutines := remove1 (length (heap s)) (goroutines s @ [length (heap s)]),
        events := events s @ [Store (id' f) (length (heap s)), Go (length (heap s))]
                    @ snd (run (length (heap s)) (newTask f))\<rparr>)"
proof -
  have dn: "doneClosed (fst (run (length (heap s)) (newTask f)))"
    using run_shape[of "newTask f" f "length (heap s)"] assms(2) by (simp add: newTask_def)
  show ?thesis
    unfolding Wait_def Task_created[OF assms(1)]
    using dn by (simp add: waitFor_def settle_def sched_def Let_def newTask_def)
qed

section \<open>What \<^verbatim>\<open>waitGroup.wait\<close> returns\<close>

lemma wg_run_adds:
  "wg_run wg (map OpAdd ts) =
     wg\<lparr>wtasks := wtasks wg @ ts,
        wcases := wcases wg @ map (\<lambda>t. \<lparr>Dir = SelectRecv, Chan = Done t\<rparr>) ts\<rparr>"
  by (induction ts arbitrary: wg) (simp_all add: wg_add_def)

text \<open>
  Claim C5, as amended. Take a wait group built by \<^verbatim>\<open>add\<close> and \<^verbatim>\<open>remove\<close> over tasks of
  the group, and any choices \<open>rs\<close> of \<^verbatim>\<open>reflect.Select\<close>. When it holds at most 65536
  entries: \<^verbatim>\<open>wait\<close> returns \<^verbatim>\<open>nil\<close> exactly when every registered task completes with the
  result \<^verbatim>\<open>nil\<close>; an error it returns is the result of a registered task that completed
  with that error, and when some registered task completes with an error \<^verbatim>\<open>wait\<close> does
  return an error, whether or not the other tasks ever complete; it does not panic; and
  when it returns \<^verbatim>\<open>nil\<close> every entry has been removed. When it holds more than 65536
  entries, \<^verbatim>\<open>reflect.Select\<close> panics in the first turn of the loop and \<^verbatim>\<open>wait\<close> returns
  nothing, whatever the tasks do. On a wait group without entries \<^verbatim>\<open>wait\<close> returns \<^verbatim>\<open>nil\<close>
  at once, leaving the state as it was.
\<close>

theorem wait_fail_fast:
  assumes "wg = wg_run (makeWaitGroup n) ops" and "\<forall>t \<in> set (wtasks wg). t < length (heap s)"
  shows "(length (wtasks wg) \<le> maxSelectCases \<longrightarrow>
            (fst (wg_wait rs s wg) = Return None \<longleftrightarrow>
               (\<forall>t \<in> set (wtasks wg). result_at s t = Some None))
          \<and> (\<forall>e. fst (wg_wait rs s wg) = Return (Some e) \<longrightarrow>
                (\<exists>t \<in> set (wtasks wg). result_at s t = Some (Some e)))
          \<and> ((\<exists>t \<in> set (wtasks wg). \<exists>e. result_at s t = Some (Some e)) \<longrightarrow>
                (\<exists>e. fst (wg_wait rs s wg) = Return (Some e)))
          \<and> (\<forall>v. fst (wg_wait rs s wg) \<noteq> Panic v)
          \<and> (fst (wg_wait rs s wg) = Return None \<longrightarrow>
                wtasks (snd (snd (wg_wait rs s wg))) = []
                \<and> wcases (snd (snd (wg_wait rs s wg))) = []))
       \<and> (maxSelectCases < length (wtasks wg) \<longrightarrow>
            wg_wait rs s wg = (Panic tooManyCases, s, wg))
       \<and> wg_wait rs s (makeWaitGroup n) = (Return None, s, makeWaitGroup n)"
proof -
  have p: "paired wg" using assms(1) by (simp add: paired_run paired_make)
  have z: "wg_wait rs s (makeWaitGroup n) = (Return None, s, makeWaitGroup n)"
    by (rule wg_wait_empty) (simp add: makeWaitGroup_def)
  have big: "wg_wait rs s wg = (Panic tooManyCases, s, wg)"
    if "maxSelectCases < length (wtasks wg)"
    by (rule wg_wait_too_many) (use that p in \<open>simp add: paired_def\<close>)
  have small: "(fst (wg_wait rs s wg) = Return None \<longleftrightarrow>
               (\<forall>t \<in> set (wtasks wg). result_at s t = Some None))
          \<and> (\<forall>e. fst (wg_wait rs s wg) = Return (Some e) \<longrightarrow>
                (\<exists>t \<in> set (wtasks wg). result_at s t = Some (Some e)))
          \<and> ((\<exists>t \<in> set (wtasks wg). \<exists>e. result_at s t = Some (Some e)) \<longrightarrow>
                (\<exists>e. fst (wg_wait rs s wg) = Return (Some e)))
          \<and> (\<forall>v. fst (wg_wait rs s wg) \<noteq> Panic v)
          \<and> (fst (wg_wait rs s wg) = Return None \<longrightarrow>
                wtasks (snd (snd (wg_wait rs s wg))) = []
                \<and> wcases (snd (snd (wg_wait rs s wg))) = [])"
    if "length (wtasks wg) \<le> maxSelectCases"
    by (rule wg_wait_spec[OF p assms(2) that])
  show ?thesis using small big z by blast
qed

lemma three_tasks_eq:
  "three_tasks =
     \<lparr>tasks = [1 \<mapsto> 0, 3 \<mapsto> 1, 5 \<mapsto> 2],
      heap = [newTask TaskFuncNop0, newTask TaskFuncImmediateErr, newTask TaskFuncForever],
      goroutines = [0, 1, 2],
      events = [Store 1 0, Go 0, Store 3 1, Go 1, Store 5 2, Go 2],
      logOutput = []\<rparr>"
  by (simp add: three_tasks_def Task_def init_def id'_def TaskFuncNop0_def
      TaskFuncImmediateErr_def TaskFuncForever_def numeral_2_eq_2)

lemma one_task_done_nil: "result_at (exec init [ATask TaskFuncNop0]) 0 = Some None"
  by (simp add: result_at_def settle_def sched_def run_unfold call_def Task_def init_def
      id'_def TaskFuncNop0_def)

lemma many_entries:
  "wtasks (wg_run (makeWaitGroup 65537) (map OpAdd (replicate 65537 0))) = replicate 65537 0"
  unfolding wg_run_adds by (simp add: makeWaitGroup_def)

theorem wait_fail_fast_witness:
  "result_at three_tasks 1 =
     Some (Some (Errorf ''task %q finished with error: %w''
                   [ArgString ''TaskFuncImmediateErr'', ArgError (Errorf ''immediate error'' [])]))
   \<and> result_at three_tasks 2 = None
   \<and> (\<exists>e. fst (wg_wait [1] three_tasks (wg_run (makeWaitGroup 3) [OpAdd 0, OpAdd 1, OpAdd 2]))
             = Return (Some e))
   \<and> fst (wg_wait [] (exec init [ATask TaskFuncNop0])
             (wg_run (makeWaitGroup 65537) (map OpAdd (replicate 65537 0))))
       = Panic tooManyCases"
proof -
  let ?wg = "wg_run (makeWaitGroup 3) [OpAdd 0, OpAdd 1, OpAdd 2]"
  have wt: "wtasks ?wg = [0, 1, 2]"
    by (simp add: makeWaitGroup_def wg_add_def)
  have v: "\<forall>t \<in> set (wtasks ?wg). t < length (heap three_tasks)"
    unfolding wt three_tasks_eq by simp
  have bd: "length (wtasks ?wg) \<le> maxSelectCases"
    unfolding wt by (simp add: maxSelectCases_def)
  have r1: "result_at three_tasks 1 =
     Some (Some (Errorf ''task %q finished with error: %w''
                   [ArgString ''TaskFuncImmediateErr'', ArgError (Errorf ''immediate error'' [])]))"
    unfolding three_tasks_eq
    by (simp add: result_at_def settle_def sched_def run_unfold call_def TaskFuncImmediateErr_def
        ShortName_def longName_def funcShortName_def LastIndex_def)
  have r2: "result_at three_tasks 2 = None"
    unfolding three_tasks_eq
    by (simp add: result_at_def settle_def sched_def run_unfold call_def TaskFuncForever_def)
  have ex: "\<exists>t \<in> set (wtasks ?wg). \<exists>e. result_at three_tasks t = Some (Some e)"
    unfolding wt using r1 by simp
  have a: "\<exists>e. fst (wg_wait [1] three_tasks ?wg) = Return (Some e)"
    using wait_fail_fast [OF refl v, of "[1]"] bd ex by blast
  let ?big = "wg_run (makeWaitGroup 65537) (map OpAdd (replicate 65537 0))"
  let ?s = "exec init [ATask TaskFuncNop0]"
  have hp: "length (heap ?s) = 1"
    by (simp add: Task_def init_def id'_def TaskFuncNop0_def)
  have vb: "\<forall>t \<in> set (wtasks ?big). t < length (heap ?s)"
    unfolding many_entries hp by (simp)
  have over: "maxSelectCases < length (wtasks ?big)"
    unfolding many_entries by (simp add: maxSelectCases_def)
  have b: "fst (wg_wait [] ?s ?big) = Panic tooManyCases"
    using wait_fail_fast [OF refl vb, of "[]"] over by simp
  show ?thesis using a b r1 r2 by blast
qed

text \<open>
  Claim C5 as stated fails for a registered set of more than 65536 entries: with one
  task that completes with \<^verbatim>\<open>nil\<close> registered 65537 times, every registered task
  completes with \<^verbatim>\<open>nil\<close> and yet \<^verbatim>\<open>wait\<close> does not return \<^verbatim>\<open>nil\<close>: it panics in
  \<^verbatim>\<open>reflect.Select\<close>.
\<close>

theorem wait_too_many_counterexample:
  "result_at (exec init [ATask TaskFuncNop0]) 0 = Some None
   \<and> wtasks (wg_run (makeWaitGroup 65537) (map OpAdd (replicate 65537 0))) = replicate 65537 0
   \<and> wg_wait [] (exec init [ATask TaskFuncNop0])
        (wg_run (makeWaitGroup 65537) (map OpAdd (replicate 65537 0)))
       = (Panic tooManyCases, exec init [ATask TaskFuncNop0],
          wg_run (makeWaitGroup 65537) (map OpAdd (replicate 65537 0)))"
proof -
  have "maxSelectCases <
          length (wcases (wg_run (makeWaitGroup 65537) (map OpAdd (replicate 65537 0))))"
    unfolding wg_run_adds
    by (simp add: makeWaitGroup_def maxSelectCases_def)
  then show ?thesis
    using one_task_done_nil many_entries by (simp only: wg_wait_too_many simp_thms)
qed

section \<open>\<^verbatim>\<open>Par\<close>\<close>

lemma Par_wait_single:
  assumes "group_inv s"
  shows "fst (Par_wait rs [x] s) = fst (Wait x s)
       \<and> (fst (Wait x s) \<noteq> Block \<longrightarrow> Par_wait rs [x] s = Wait x s)"
proof -
  let ?t = "fst (Task s x)" and ?s1 = "snd (Task s x)"
  let ?wg = "\<lparr>wtasks = [?t], wcases = [\<lparr>Dir = SelectRecv, Chan = Done ?t\<rparr>]\<rparr>"
  have pa: "par_add (makeWaitGroup (length [x])) [x] s = (?wg, ?s1)"
    by (simp add: Let_def wg_add_def makeWaitGroup_def)
  have p: "paired ?wg" by (simp add: paired_def)
  have wt: "wtasks ?wg = [?t]" by simp
  have one: "length (wcases ?wg) \<le> maxSelectCases" by (simp add: maxSelectCases_def)
  have one': "length (wtasks ?wg) \<le> maxSelectCases" by (simp add: maxSelectCases_def)
  have tl: "?t < length (heap ?s1)" by (rule Task_valid[OF assms])
  have v: "\<forall>t \<in> set (wtasks ?wg). t < length (heap ?s1)"
    unfolding wt using tl by simp
  have W: "Wait x s = ((case result_at ?s1 ?t of Some r \<Rightarrow> Return r | None \<Rightarrow> Block), settle ?s1 ?t)"
    by (rule Wait_result[OF assms])
  have P: "Par_wait rs [x] s = (fst (wg_wait rs ?s1 ?wg), fst (snd (wg_wait rs ?s1 ?wg)))"
    unfolding Par_wait_def pa by (simp add: Let_def)
  show ?thesis
  proof (cases "ready ?s1 (wcases ?wg) = []")
    case True
    have pos: "wcases ?wg \<noteq> []" by simp
    have "result_at ?s1 ?t = None"
      using ready_paired[OF p v] True unfolding wt by auto
    then show ?thesis
      unfolding P W by (simp add: wg_wait_blocked[OF pos True one])
  next
    case False
    from wg_wait_turn[OF p v False one', of rs] obtain i r
      where il: "i < length (wtasks ?wg)" and r: "result_at ?s1 (wtasks ?wg ! i) = Some r"
        and w: "wg_wait rs ?s1 ?wg =
             (case r of
                Some e \<Rightarrow> (Return (Some e), settle ?s1 (wtasks ?wg ! i), without ?wg i)
              | None \<Rightarrow> wg_wait (tl rs) (settle ?s1 (wtasks ?wg ! i)) (without ?wg i))"
      by blast
    have i0: "i = 0" using il unfolding wt by simp
    have ti: "wtasks ?wg ! i = ?t" unfolding wt i0 by simp
    have emp: "wcases (without ?wg i) = []"
      by (simp add: without_def i0)
    have r': "result_at ?s1 ?t = Some r" using r unfolding ti .
    have "wg_wait rs ?s1 ?wg = (Return r, settle ?s1 ?t, without ?wg i)"
      using w unfolding ti by (cases r) (simp_all add: wg_wait_empty[OF emp])
    then show ?thesis
      unfolding P W by (simp add: r')
  qed
qed

text \<open>
  Claim C6. The function made by \<^verbatim>\<open>Par\<close> of no functions returns \<^verbatim>\<open>nil\<close> and leaves the
  group as it was. The function made by \<^verbatim>\<open>Par\<close> of one function \<open>x\<close> is \<^verbatim>\<open>Wait\<close> on \<open>x\<close>; and
  the path through the wait group, had it been taken for one function, would do the
  same: the same outcome always, and the same state whenever the call returns.
\<close>

theorem Par_zero_one:
  assumes "group_inv s"
  shows "Par rs [] s = (Return None, s)
       \<and> Par rs [x] s = Wait x s
       \<and> fst (Par_wait rs [x] s) = fst (Wait x s)
       \<and> (fst (Wait x s) \<noteq> Block \<longrightarrow> Par_wait rs [x] s = Wait x s)"
  using Par_wait_single[OF assms, of rs x] by (simp add: Par_def)

theorem Par_zero_one_witness:
  "Par [] [] init = (Return None, init)
   \<and> Par [] [TaskFuncImmediateErr] init = Wait TaskFuncImmediateErr init
   \<and> Par_wait [] [TaskFuncImmediateErr] init = Wait TaskFuncImmediateErr init
   \<and> fst (Wait TaskFuncImmediateErr init) =
       Return (Some (Errorf ''task %q finished with error: %w''
                       [ArgString ''TaskFuncImmediateErr'', ArgError (Errorf ''immediate error'' [])]))"
proof -
  have t: "tasks init (id' TaskFuncImmediateErr) = None" by (simp add: init_def)
  have c: "call TaskFuncImmediateErr \<noteq> Block" by (simp add: call_def TaskFuncImmediateErr_def)
  have w: "fst (Wait TaskFuncImmediateErr init) =
       Return (Some (Errorf ''task %q finished with error: %w''
                       [ArgString ''TaskFuncImmediateErr'', ArgError (Errorf ''immediate error'' [])]))"
    unfolding Wait_fresh[OF t c]
    by (simp add: run_unfold call_def TaskFuncImmediateErr_def
        ShortName_def longName_def funcShortName_def LastIndex_def)
  show ?thesis
    using Par_zero_one [OF group_inv_init, of "[]" TaskFuncImmediateErr] w by simp
qed

section \<open>\<^verbatim>\<open>Ser\<close>\<close>

lemma Ser_single: "Ser [f] s = Wait f s"
  by (cases "Wait f s" rule: prod.exhaust; cases "fst (Wait f s)")
     (auto split: option.splits outcome.splits)

lemma Ser_append:
  "Ser (fs @ gs) s = (if fst (Ser fs s) = Return None then Ser gs (snd (Ser fs s)) else Ser fs s)"
proof (induction fs arbitrary: s)
  case Nil
  then show ?case by simp
next
  case (Cons f fs)
  obtain oc s1 where w: "Wait f s = (oc, s1)" by (cases "Wait f s")
  show ?case
  proof (cases "oc = Return None")
    case True
    then show ?thesis using w Cons.IH[of s1] by simp
  next
    case False
    then show ?thesis using w by (cases oc) (auto split: option.splits)
  qed
qed

lemma Ser_first_error:
  assumes "Ser funs s = (Return (Some e), s')"
  shows "\<exists>fs f gs. funs = fs @ f # gs \<and> fst (Ser fs s) = Return None
            \<and> Wait f (snd (Ser fs s)) = (Return (Some e), s')"
  using assms
proof (induction funs arbitrary: s)
  case Nil
  then show ?case by simp
next
  case (Cons f funs)
  obtain oc s1 where w: "Wait f s = (oc, s1)" by (cases "Wait f s")
  show ?case
  proof (cases "oc = Return None")
    case True
    then have "Ser funs s1 = (Return (Some e), s')" using Cons.prems w by simp
    from Cons.IH[OF this] obtain fs g gs
      where d: "funs = fs @ g # gs" and n: "fst (Ser fs s1) = Return None"
        and l: "Wait g (snd (Ser fs s1)) = (Return (Some e), s')" by blast
    have "f # funs = (f # fs) @ g # gs" using d by simp
    moreover have "fst (Ser (f # fs) s) = Return None" using w True n by simp
    moreover have "Wait g (snd (Ser (f # fs) s)) = (Return (Some e), s')" using w True l by simp
    ultimately show ?thesis by blast
  next
    case False
    then have "Wait f s = (Return (Some e), s')"
      using Cons.prems w by (cases oc) (auto split: option.splits)
    moreover have "f # funs = [] @ f # funs" by simp
    moreover have "fst (Ser [] s) = Return None" by simp
    ultimately show ?thesis by (metis Ser.simps(1) snd_conv)
  qed
qed

lemma finished_nil_Wait: "finished_nil s f \<Longrightarrow> finished_nil (snd (Wait g s)) f"
  unfolding finished_nil_def using Wait_keeps by metis

lemma finished_nil_Ser: "finished_nil s f \<Longrightarrow> finished_nil (snd (Ser gs s)) f"
proof (induction gs arbitrary: s)
  case Nil
  then show ?case by simp
next
  case (Cons g gs)
  obtain oc s1 where w: "Wait g s = (oc, s1)" by (cases "Wait g s")
  have f1: "finished_nil s1 f" using finished_nil_Wait[OF Cons.prems, of g] w by simp
  show ?case
  proof (cases "oc = Return None")
    case True
    then show ?thesis using w Cons.IH[OF f1] by simp
  next
    case False
    then show ?thesis using w f1 by (cases oc) (auto split: option.splits)
  qed
qed

lemma Ser_all_nil:
  assumes "fst (Ser funs s) = Return None"
  shows "\<forall>f \<in> set funs. finished_nil (snd (Ser funs s)) f"
  using assms
proof (induction funs arbitrary: s)
  case Nil
  then show ?case by simp
next
  case (Cons f funs)
  obtain oc s1 where w: "Wait f s = (oc, s1)" by (cases "Wait f s")
  have oc: "oc = Return None"
    using Cons.prems w by (cases oc) (auto split: option.splits)
  have sr: "Ser (f # funs) s = Ser funs s1" using w oc by simp
  have "finished_nil s1 f"
    using Wait_returned[of f s None s1] w oc by (simp add: finished_nil_def)
  then have a: "finished_nil (snd (Ser funs s1)) f" by (rule finished_nil_Ser)
  have "fst (Ser funs s1) = Return None" using Cons.prems sr by simp
  then have b: "\<forall>g \<in> set funs. finished_nil (snd (Ser funs s1)) g" by (rule Cons.IH)
  show ?case unfolding sr using a b by simp
qed

text \<open>
  Claim C7. The function made by \<^verbatim>\<open>Ser\<close> waits through \<^verbatim>\<open>Wait\<close> (so through the group's
  \<^verbatim>\<open>Task\<close>) on its functions in the order given: for one function it is \<^verbatim>\<open>Wait\<close>; for a
  list \<open>fs @ gs\<close> it does what it does for \<open>fs\<close> and goes on to \<open>gs\<close>, from the state
  reached, only if that returned \<^verbatim>\<open>nil\<close>. When it returns an error, that is the
  error of the wait on some function \<open>f\<close> of the list, all waits before \<open>f\<close> returned \<^verbatim>\<open>nil\<close>
  and the state is the one that wait left: no function after \<open>f\<close> was requested. When
  it returns \<^verbatim>\<open>nil\<close>, the task of every function of the list has completed with \<^verbatim>\<open>nil\<close>.
\<close>

theorem Ser_in_order:
  "Ser [] s = (Return None, s)
   \<and> Ser [f] s = Wait f s
   \<and> Ser (fs @ gs) s = (if fst (Ser fs s) = Return None then Ser gs (snd (Ser fs s)) else Ser fs s)
   \<and> (\<forall>e s'. Ser funs s = (Return (Some e), s') \<longrightarrow>
         (\<exists>fs f gs. funs = fs @ f # gs \<and> fst (Ser fs s) = Return None
            \<and> Wait f (snd (Ser fs s)) = (Return (Some e), s')))
   \<and> (fst (Ser funs s) = Return None \<longrightarrow>
         (\<forall>f \<in> set funs. \<exists>t. tasks (snd (Ser funs s)) (id' f) = Some t
             \<and> t < length (heap (snd (Ser funs s)))
             \<and> doneClosed (heap (snd (Ser funs s)) ! t)
             \<and> Err (heap (snd (Ser funs s)) ! t) = None))"
  using Ser_single[of f s] Ser_append[of fs gs s] Ser_first_error[of funs s] Ser_all_nil[of funs s]
  unfolding finished_nil_def by simp

theorem Ser_in_order_witness:
  "fst (Ser [TaskFuncNop0, TaskFuncNop1] init) = Return None
   \<and> (\<exists>t. tasks (snd (Ser [TaskFuncNop0, TaskFuncNop1] init)) (id' TaskFuncNop1) = Some t
          \<and> doneClosed (heap (snd (Ser [TaskFuncNop0, TaskFuncNop1] init)) ! t))
   \<and> Ser [TaskFuncNop0, TaskFuncImmediateErr, TaskFuncForever] init
       = Ser [TaskFuncNop0, TaskFuncImmediateErr] init"
proof -
  have t0: "tasks init (id' TaskFuncNop0) = None" by (simp add: init_def)
  have c0: "call TaskFuncNop0 \<noteq> Block" by (simp add: call_def TaskFuncNop0_def)
  have c1: "call TaskFuncNop1 \<noteq> Block" by (simp add: call_def TaskFuncNop1_def)
  have c3: "call TaskFuncImmediateErr \<noteq> Block" by (simp add: call_def TaskFuncImmediateErr_def)
  have ids: "id' TaskFuncNop0 = 1" "id' TaskFuncNop1 = 2" "id' TaskFuncImmediateErr = 3"
    by (simp_all add: id'_def TaskFuncNop0_def TaskFuncNop1_def TaskFuncImmediateErr_def)
  have r0: "Err (fst (run a (newTask TaskFuncNop0))) = None" for a
    by (simp add: run_unfold call_def TaskFuncNop0_def)
  have r1: "Err (fst (run a (newTask TaskFuncNop1))) = None" for a
    by (simp add: run_unfold call_def TaskFuncNop1_def)
  have r3: "Err (fst (run a (newTask TaskFuncImmediateErr))) \<noteq> None" for a
    by (simp add: run_unfold call_def TaskFuncImmediateErr_def)
  have n: "fst (Ser [TaskFuncNop0, TaskFuncNop1] init) = Return None"
    by (simp add: Wait_fresh t0 c0 c1 r0 r1 ids init_def)
  have e: "fst (Ser [TaskFuncNop0, TaskFuncImmediateErr] init) \<noteq> Return None"
    using r3 by (auto simp: Wait_fresh t0 c0 c3 r0 ids init_def split: option.splits)
  have "Ser ([TaskFuncNop0, TaskFuncImmediateErr] @ [TaskFuncForever]) init
       = Ser [TaskFuncNop0, TaskFuncImmediateErr] init"
    using Ser_in_order [of init TaskFuncNop0 "[TaskFuncNop0, TaskFuncImmediateErr]"
        "[TaskFuncForever]" "[TaskFuncNop0, TaskFuncNop1]"] e
    by (simp only: if_False)
  moreover have "\<exists>t. tasks (snd (Ser [TaskFuncNop0, TaskFuncNop1] init)) (id' TaskFuncNop1) = Some t
          \<and> doneClosed (heap (snd (Ser [TaskFuncNop0, TaskFuncNop1] init)) ! t)"
    using Ser_in_order [of init TaskFuncNop0 "[TaskFuncNop0, TaskFuncImmediateErr]"
        "[TaskFuncForever]" "[TaskFuncNop0, TaskFuncNop1]"] n
    by auto
  ultimately show ?thesis using n by simp
qed

section \<open>\<^verbatim>\<open>Opt\<close>\<close>

lemma Log_fields: "heap (Log s r) = heap s \<and> tasks (Log s r) = tasks s
     \<and> goroutines (Log s r) = goroutines s \<and> events (Log s r) = events s"
  by (cases r) (simp_all add: Log_def)

lemma Opt_no_error: "fst (Opt f s) \<noteq> Return (Some e)"
  by (cases "Wait f s" rule: prod.exhaust; cases "fst (Wait f s)")
     (auto simp: Opt_def split: outcome.splits)

lemma Opt_returned:
  assumes "Wait f s = (Return r, s1)"
  shows "Opt f s = (Return None, Log s1 r) \<and> Wait f (Log s1 r) = (Return r, Log s1 r)"
proof -
  from Wait_returned[OF assms] obtain t
    where t: "tasks s1 (id' f) = Some t" "t < length (heap s1)" "doneClosed (heap s1 ! t)"
      "Err (heap s1 ! t) = r" by blast
  have "Wait f (Log s1 r) = (Return (Err (heap (Log s1 r) ! t)), Log s1 r)"
    by (rule Wait_again) (simp_all add: Log_fields t)
  then show ?thesis using assms t(4) by (simp add: Opt_def Log_fields)
qed

text \<open>
  Claim C8. The function made by \<^verbatim>\<open>Opt\<close> of \<open>f\<close> never returns an error. Whenever the
  task of \<open>f\<close> completes, with whatever result \<open>r\<close>, it returns \<^verbatim>\<open>nil\<close>, the heap is the one
  the wait left, \<open>r\<close> is logged when it is an error, and a direct \<^verbatim>\<open>Wait\<close> on \<open>f\<close> afterwards
  returns \<open>r\<close>. So for a function not requested before that returns or panics, the
  wrapper returns \<^verbatim>\<open>nil\<close> and a later direct wait observes the result of its \<^verbatim>\<open>run\<close>.
\<close>

theorem Opt_suppresses:
  "(\<forall>e. fst (Opt f s) \<noteq> Return (Some e))
   \<and> (\<forall>r s1. Wait f s = (Return r, s1) \<longrightarrow>
         Opt f s = (Return None, Log s1 r)
         \<and> heap (Log s1 r) = heap s1
         \<and> logOutput (Log s1 r) = logOutput s1 @ (case r of None \<Rightarrow> [] | Some x \<Rightarrow> [x])
         \<and> Wait f (Log s1 r) = (Return r, Log s1 r))
   \<and> (tasks s (id' f) = None \<and> call f \<noteq> Block \<longrightarrow>
         fst (Opt f s) = Return None
         \<and> fst (Wait f (snd (Opt f s))) = Return (Err (fst (run (length (heap s)) (newTask f)))))"
proof -
  have a: "\<forall>e. fst (Opt f s) \<noteq> Return (Some e)" by (simp add: Opt_no_error)
  have b: "Opt f s = (Return None, Log s1 r)
         \<and> heap (Log s1 r) = heap s1
         \<and> logOutput (Log s1 r) = logOutput s1 @ (case r of None \<Rightarrow> [] | Some x \<Rightarrow> [x])
         \<and> Wait f (Log s1 r) = (Return r, Log s1 r)"
    if "Wait f s = (Return r, s1)" for r s1
    using Opt_returned[OF that] by (cases r) (simp_all add: Log_fields Log_def)
  have c: "fst (Opt f s) = Return None
         \<and> fst (Wait f (snd (Opt f s))) = Return (Err (fst (run (length (heap s)) (newTask f))))"
    if "tasks s (id' f) = None \<and> call f \<noteq> Block"
  proof -
    from that have w: "Wait f s = (Return (Err (fst (run (length (heap s)) (newTask f)))),
        snd (Wait f s))"
      using Wait_fresh[of s f] by simp
    from Opt_returned[OF w] show ?thesis by simp
  qed
  show ?thesis using a b c by blast
qed

theorem Opt_suppresses_witness:
  "fst (Opt TaskFuncImmediateErr init) = Return None
   \<and> fst (Wait TaskFuncImmediateErr (snd (Opt TaskFuncImmediateErr init))) =
       Return (Some (Errorf ''task %q finished with error: %w''
                       [ArgString ''TaskFuncImmediateErr'', ArgError (Errorf ''immediate error'' [])]))"
proof -
  have t: "tasks init (id' TaskFuncImmediateErr) = None" by (simp add: init_def)
  have c: "call TaskFuncImmediateErr \<noteq> Block" by (simp add: call_def TaskFuncImmediateErr_def)
  have r: "Err (fst (run (length (heap init)) (newTask TaskFuncImmediateErr))) =
       Some (Errorf ''task %q finished with error: %w''
                       [ArgString ''TaskFuncImmediateErr'', ArgError (Errorf ''immediate error'' [])])"
    by (simp add: run_unfold call_def TaskFuncImmediateErr_def
        ShortName_def longName_def funcShortName_def LastIndex_def)
  show ?thesis
    using Opt_suppresses [of TaskFuncImmediateErr init] t c r by simp
qed

end
